theory Spec2Isabelle
  imports Complex_Main "HOL-Library.AList" "HOL-Library.Multiset" "HOL-Library.Product_Lexorder"
begin

section \<open>Values, errors and time\<close>

text \<open>
  The memory engine stores JSON-compatible payloads. A Python \<open>dict\<close> keeps its keys in
  insertion order, so a dictionary is an association list; \<open>AList.update\<close> is the
  assignment \<open>d[k] = v\<close> (replace in place, or append a new key at the end) and
  \<open>AList.delete\<close> is \<open>del d[k]\<close> on a key that is present.
\<close>

datatype json =
    JNull
  | JBool bool
  | JInt int
  | JFloat real
  | JStr string
  | JList "json list"
  | JObj "(string \<times> json) list"

type_synonym pydict = "(string \<times> json) list"

text \<open>Exceptions are values; every constructor carries the text that \<open>str(e)\<close> returns.\<close>

datatype error =
    KeyError string
  | LmdbError string
  | VectorStoreError string
  | IndexError string
  | ValueError string
  | TypeError string
  | PluginError string

fun str_error :: "error \<Rightarrow> string" where
  "str_error (KeyError m) = m"
| "str_error (LmdbError m) = m"
| "str_error (VectorStoreError m) = m"
| "str_error (IndexError m) = m"
| "str_error (ValueError m) = m"
| "str_error (TypeError m) = m"
| "str_error (PluginError m) = m"

text \<open>
  A \<open>datetime\<close> is an instant, counted in microseconds. Only two things are done with
  one: instants are compared, and \<open>PersistentStore\<close> prints one with \<open>str\<close> and reads
  it back with \<open>datetime.fromisoformat\<close>. The calendar layout of the printed text is
  never inspected, so the text is the decimal numeral of the instant; reading any other
  text fails, as \<open>fromisoformat\<close> does with \<open>ValueError\<close>.
\<close>

type_synonym datetime = nat

definition digit_chars :: string where
  "digit_chars = ''0123456789''"

function datetime_str :: "datetime \<Rightarrow> string" where
  "datetime_str n =
     (if n < 10 then [digit_chars ! n]
      else datetime_str (n div 10) @ [digit_chars ! (n mod 10)])"
  by pat_completeness auto
termination
  by (relation "measure (\<lambda>n. n)") auto

definition digit_val :: "char \<Rightarrow> nat option" where
  "digit_val c =
     (let v = (of_char c :: nat) in if 48 \<le> v \<and> v \<le> 57 then Some (v - 48) else None)"

fun read_digits :: "nat \<Rightarrow> string \<Rightarrow> nat option" where
  "read_digits acc [] = Some acc"
| "read_digits acc (c # cs) =
     (case digit_val c of None \<Rightarrow> None | Some d \<Rightarrow> read_digits (10 * acc + d) cs)"

definition fromisoformat :: "string \<Rightarrow> error + datetime" where
  "fromisoformat s =
     (case (if s = [] then None else read_digits 0 s) of
        None \<Rightarrow> Inl (ValueError (''Invalid isoformat string: '' @ s))
      | Some t \<Rightarrow> Inr t)"

section \<open>memory_engine.py\<close>

subsection \<open>MemoryContext\<close>

record MemoryContext =
  mc_id :: string
  mc_content :: pydict
  mc_tags :: "string list"
  mc_timestamp :: datetime
  mc_session_id :: string
  mc_workspace_path :: "string option"
  mc_git_hash :: "string option"

subsection \<open>RAMBuffer\<close>

text \<open>
  \<open>_buffer\<close> and \<open>_access_times\<close> are the two dictionaries of the class. The reading of
  \<open>time.time()\<close> that an operation takes is its argument \<open>now\<close>.
\<close>

record RAMBuffer =
  max_size :: int
  buffer :: "(string \<times> MemoryContext) list"
  access_times :: "(string \<times> real) list"

definition RAMBuffer_init :: "int \<Rightarrow> RAMBuffer" where
  "RAMBuffer_init n = \<lparr>max_size = n, buffer = [], access_times = []\<rparr>"

definition RAMBuffer_get :: "string \<Rightarrow> real \<Rightarrow> RAMBuffer \<Rightarrow> MemoryContext option \<times> RAMBuffer" where
  "RAMBuffer_get key now b =
     (case map_of (buffer b) key of
        Some ctx \<Rightarrow> (Some ctx, b\<lparr>access_times := AList.update key now (access_times b)\<rparr>)
      | None \<Rightarrow> (None, b))"

text \<open>
  \<open>min(keys, key=...)\<close> keeps the first key whose access time is the least: a later
  key replaces the candidate only when its time is strictly smaller.
\<close>

fun py_min :: "string \<times> real \<Rightarrow> (string \<times> real) list \<Rightarrow> string \<times> real" where
  "py_min best [] = best"
| "py_min best (p # ps) = (if snd p < snd best then py_min p ps else py_min best ps)"

definition RAMBuffer_evict_lru :: "RAMBuffer \<Rightarrow> (error + unit) \<times> RAMBuffer" where
  "RAMBuffer_evict_lru b =
     (case access_times b of
        [] \<Rightarrow> (Inr (), b)
      | p # ps \<Rightarrow>
          (let lru_key = fst (py_min p ps) in
           case map_of (buffer b) lru_key of
             None \<Rightarrow> (Inl (KeyError lru_key), b)
           | Some _ \<Rightarrow>
               (Inr (), b\<lparr>buffer := AList.delete lru_key (buffer b),
                          access_times := AList.delete lru_key (access_times b)\<rparr>)))"

definition RAMBuffer_put ::
  "string \<Rightarrow> MemoryContext \<Rightarrow> real \<Rightarrow> RAMBuffer \<Rightarrow> (error + unit) \<times> RAMBuffer" where
  "RAMBuffer_put key ctx now b =
     (case (if max_size b \<le> int (length (buffer b)) then RAMBuffer_evict_lru b
            else (Inr (), b)) of
        (Inl e, b') \<Rightarrow> (Inl e, b')
      | (Inr _, b') \<Rightarrow>
          (Inr (), b'\<lparr>buffer := AList.update key ctx (buffer b'),
                      access_times := AList.update key now (access_times b')\<rparr>))"

definition RAMBuffer_clear :: "RAMBuffer \<Rightarrow> RAMBuffer" where
  "RAMBuffer_clear b = b\<lparr>buffer := [], access_times := []\<rparr>"

subsection \<open>PersistentStore\<close>

text \<open>
  The LMDB environment is a map from keys to stored values. \<open>json.dumps\<close> and
  \<open>json.loads\<close> are taken to be inverse on JSON documents, so a stored value is the
  document that \<open>json.dumps(asdict(context), default=str)\<close> prints: \<open>default=str\<close> is
  applied to the one field that is not JSON, the timestamp.
\<close>

definition json_opt_str :: "string option \<Rightarrow> json" where
  "json_opt_str s = (case s of None \<Rightarrow> JNull | Some t \<Rightarrow> JStr t)"

definition asdict :: "MemoryContext \<Rightarrow> json" where
  "asdict ctx = JObj
     [(''id'', JStr (mc_id ctx)),
      (''content'', JObj (mc_content ctx)),
      (''tags'', JList (map JStr (mc_tags ctx))),
      (''timestamp'', JStr (datetime_str (mc_timestamp ctx))),
      (''session_id'', JStr (mc_session_id ctx)),
      (''workspace_path'', json_opt_str (mc_workspace_path ctx)),
      (''git_hash'', json_opt_str (mc_git_hash ctx))]"

fun as_str :: "json \<Rightarrow> string option" where
  "as_str (JStr s) = Some s"
| "as_str _ = None"

fun as_dict :: "json \<Rightarrow> pydict option" where
  "as_dict (JObj d) = Some d"
| "as_dict _ = None"

fun as_str_list :: "json list \<Rightarrow> string list option" where
  "as_str_list [] = Some []"
| "as_str_list (j # js) =
     (case (as_str j, as_str_list js) of
        (Some s, Some ss) \<Rightarrow> Some (s # ss)
      | _ \<Rightarrow> None)"

fun as_tags :: "json \<Rightarrow> string list option" where
  "as_tags (JList js) = as_str_list js"
| "as_tags _ = None"

fun as_opt_str :: "json option \<Rightarrow> string option option" where
  "as_opt_str None = Some None"
| "as_opt_str (Some JNull) = Some None"
| "as_opt_str (Some (JStr s)) = Some (Some s)"
| "as_opt_str (Some _) = None"

text \<open>
  \<open>MemoryContext(**data)\<close> after \<open>data['timestamp'] = fromisoformat(data['timestamp'])\<close>.
  A document that \<open>store_context\<close> did not write makes the source raise (a missing or
  unexpected key, an unreadable timestamp) or build a record whose fields have the wrong
  types; the model reports each of these as an error.
\<close>

definition context_fields :: "string list" where
  "context_fields =
     [''id'', ''content'', ''tags'', ''timestamp'', ''session_id'', ''workspace_path'', ''git_hash'']"

definition from_document :: "json \<Rightarrow> error + MemoryContext" where
  "from_document doc =
     (case doc of
        JObj data \<Rightarrow>
          (case map_of data ''timestamp'' of
             None \<Rightarrow> Inl (KeyError ''timestamp'')
           | Some ts \<Rightarrow>
               (case as_str ts of
                  None \<Rightarrow> Inl (TypeError ''fromisoformat: argument must be str'')
                | Some s \<Rightarrow>
                    (case fromisoformat s of
                       Inl e \<Rightarrow> Inl e
                     | Inr t \<Rightarrow>
                         (if \<not> set (map fst data) \<subseteq> set context_fields
                          then Inl (TypeError ''unexpected keyword argument'')
                          else
                            (case (Option.bind (map_of data ''id'') as_str,
                                   Option.bind (map_of data ''content'') as_dict,
                                   Option.bind (map_of data ''tags'') as_tags,
                                   Option.bind (map_of data ''session_id'') as_str,
                                   as_opt_str (map_of data ''workspace_path''),
                                   as_opt_str (map_of data ''git_hash'')) of
                               (Some i, Some c, Some tg, Some sid, Some wp, Some gh) \<Rightarrow>
                                 Inr \<lparr>mc_id = i, mc_content = c, mc_tags = tg, mc_timestamp = t,
                                      mc_session_id = sid, mc_workspace_path = wp,
                                      mc_git_hash = gh\<rparr>
                             | _ \<Rightarrow> Inl (TypeError ''missing or ill-typed argument''))))))
      | _ \<Rightarrow> Inl (TypeError ''string indices must be integers''))"

type_synonym lmdb = "string \<rightharpoonup> json"

text \<open>
  Whether LMDB accepts the write is decided outside the program: \<open>failure\<close> is the
  message of the error it raises, if it raises one. The write transaction is aborted
  then, and the environment is as before.
\<close>

definition store_context :: "MemoryContext \<Rightarrow> string option \<Rightarrow> lmdb \<Rightarrow> (error + unit) \<times> lmdb" where
  "store_context ctx failure env =
     (case failure of
        Some msg \<Rightarrow> (Inl (LmdbError msg), env)
      | None \<Rightarrow> (Inr (), env(mc_id ctx \<mapsto> asdict ctx)))"

definition get_context :: "string \<Rightarrow> lmdb \<Rightarrow> error + MemoryContext option" where
  "get_context context_id env =
     (case env context_id of
        None \<Rightarrow> Inr None
      | Some doc \<Rightarrow> (case from_document doc of Inl e \<Rightarrow> Inl e | Inr ctx \<Rightarrow> Inr (Some ctx)))"

subsection \<open>VectorStore\<close>

text \<open>
  Both branches of \<open>add_context\<close> file, under the record's id, a text and metadata
  computed from the record; the index is the dictionary from ids to the records they
  were computed from. \<open>failure\<close> is the error of the index backend, if it raises one.
\<close>

type_synonym vector_index = "(string \<times> MemoryContext) list"

definition add_context ::
  "MemoryContext \<Rightarrow> string option \<Rightarrow> vector_index \<Rightarrow> (error + unit) \<times> vector_index" where
  "add_context ctx failure ix =
     (case failure of
        Some msg \<Rightarrow> (Inl (VectorStoreError msg), ix)
      | None \<Rightarrow> (Inr (), AList.update (mc_id ctx) ctx ix))"

subsection \<open>MemoryEngine\<close>

record MemoryEngine =
  session_id :: string
  workspace_path :: string
  ram_buffer :: RAMBuffer
  persistent_store :: lmdb
  vector_store :: vector_index

text \<open>
  What one call of \<open>store_memory\<close> reads from outside the program: the \<open>uuid4\<close> it
  draws, the commit hash of the repository (absent without a repository or when reading
  it fails), \<open>datetime.now\<close>, the \<open>time.time()\<close> of the buffer, and the outcome of the
  two backend writes.
\<close>

record store_env =
  new_id :: string
  git_head :: "string option"
  now_utc :: datetime
  clock :: real
  durable_failure :: "string option"
  index_failure :: "string option"

definition MemoryEngine_init :: "string \<Rightarrow> string \<Rightarrow> int \<Rightarrow> MemoryEngine" where
  "MemoryEngine_init sid path max_ram_size =
     \<lparr>session_id = sid, workspace_path = path, ram_buffer = RAMBuffer_init max_ram_size,
      persistent_store = Map.empty, vector_store = []\<rparr>"

definition new_context :: "pydict \<Rightarrow> string list option \<Rightarrow> store_env \<Rightarrow> MemoryEngine \<Rightarrow> MemoryContext" where
  "new_context cont tgs env e =
     \<lparr>mc_id = new_id env,
      mc_content = cont,
      mc_tags = (case tgs of None \<Rightarrow> [] | Some ts \<Rightarrow> ts),
      mc_timestamp = now_utc env,
      mc_session_id = session_id e,
      mc_workspace_path = Some (workspace_path e),
      mc_git_hash = git_head env\<rparr>"

definition store_memory ::
  "pydict \<Rightarrow> string list option \<Rightarrow> store_env \<Rightarrow> MemoryEngine \<Rightarrow> (error + string) \<times> MemoryEngine" where
  "store_memory cont tgs env e =
     (let ctx = new_context cont tgs env e in
      case RAMBuffer_put (mc_id ctx) ctx (clock env) (ram_buffer e) of
        (Inl err, b) \<Rightarrow> (Inl err, e\<lparr>ram_buffer := b\<rparr>)
      | (Inr _, b) \<Rightarrow>
          (case store_context ctx (durable_failure env) (persistent_store e) of
             (Inl err, ps) \<Rightarrow> (Inl err, e\<lparr>ram_buffer := b, persistent_store := ps\<rparr>)
           | (Inr _, ps) \<Rightarrow>
               (case add_context ctx (index_failure env) (vector_store e) of
                  (Inl err, ix) \<Rightarrow>
                    (Inl err, e\<lparr>ram_buffer := b, persistent_store := ps, vector_store := ix\<rparr>)
                | (Inr _, ix) \<Rightarrow>
                    (Inr (mc_id ctx),
                     e\<lparr>ram_buffer := b, persistent_store := ps, vector_store := ix\<rparr>))))"

definition retrieve_memory ::
  "string \<Rightarrow> real \<Rightarrow> MemoryEngine \<Rightarrow> (error + MemoryContext option) \<times> MemoryEngine" where
  "retrieve_memory context_id now e =
     (case RAMBuffer_get context_id now (ram_buffer e) of
        (Some ctx, b) \<Rightarrow> (Inr (Some ctx), e\<lparr>ram_buffer := b\<rparr>)
      | (None, b) \<Rightarrow>
          (case get_context context_id (persistent_store e) of
             Inl err \<Rightarrow> (Inl err, e\<lparr>ram_buffer := b\<rparr>)
           | Inr None \<Rightarrow> (Inr None, e\<lparr>ram_buffer := b\<rparr>)
           | Inr (Some ctx) \<Rightarrow>
               (case RAMBuffer_put context_id ctx now b of
                  (Inl err, b') \<Rightarrow> (Inl err, e\<lparr>ram_buffer := b'\<rparr>)
                | (Inr _, b') \<Rightarrow> (Inr (Some ctx), e\<lparr>ram_buffer := b'\<rparr>))))"

text \<open>
  \<open>search_similar\<close> is the index backend (ChromaDB, or the substring fallback over the
  printed contents): \<open>backend\<close> is the function from the index, the query and the
  requested number of results to its ranked answer, or to the error it raises.
  \<open>clk i\<close> is the \<open>time.time()\<close> read while candidate number \<open>i\<close> is retrieved.
\<close>

type_synonym search_backend = "vector_index \<Rightarrow> string \<Rightarrow> int \<Rightarrow> error + (string \<times> real) list"

definition tag_mismatch :: "string list option \<Rightarrow> MemoryContext \<Rightarrow> bool" where
  "tag_mismatch tgs context =
     (case tgs of
        None \<Rightarrow> False
      | Some ts \<Rightarrow> ts \<noteq> [] \<and> \<not> list_ex (\<lambda>tag. tag \<in> set (mc_tags context)) ts)"

fun search_loop ::
  "(string \<times> real) list \<Rightarrow> (nat \<Rightarrow> real) \<Rightarrow> nat \<Rightarrow> string list option \<Rightarrow> int \<Rightarrow>
   MemoryContext list \<Rightarrow> MemoryEngine \<Rightarrow> (error + MemoryContext list) \<times> MemoryEngine" where
  "search_loop [] clk i tgs limit memories e = (Inr memories, e)"
| "search_loop ((context_id, score) # rest) clk i tgs limit memories e =
     (case retrieve_memory context_id (clk i) e of
        (Inl err, e') \<Rightarrow> (Inl err, e')
      | (Inr None, e') \<Rightarrow> search_loop rest clk (Suc i) tgs limit memories e'
      | (Inr (Some context), e') \<Rightarrow>
          (if tag_mismatch tgs context then search_loop rest clk (Suc i) tgs limit memories e'
           else if limit \<le> int (length (memories @ [context])) then (Inr (memories @ [context]), e')
           else search_loop rest clk (Suc i) tgs limit (memories @ [context]) e'))"

definition search_memories ::
  "search_backend \<Rightarrow> string \<Rightarrow> string list option \<Rightarrow> int \<Rightarrow> (nat \<Rightarrow> real) \<Rightarrow> MemoryEngine \<Rightarrow>
   (error + MemoryContext list) \<times> MemoryEngine" where
  "search_memories backend query tgs limit clk e =
     (case backend (vector_store e) query (limit * 2) of
        Inl err \<Rightarrow> (Inl err, e)
      | Inr similar_ids \<Rightarrow> search_loop similar_ids clk 0 tgs limit [] e)"

text \<open>
  \<open>get_workspace_context\<close>: the repository fields are added by one \<open>update\<close> inside a
  \<open>try\<close>, so \<open>git_info\<close> is either all of them or empty.
\<close>

definition get_workspace_context :: "datetime \<Rightarrow> pydict \<Rightarrow> MemoryEngine \<Rightarrow> pydict" where
  "get_workspace_context now git_info e =
     [(''workspace_path'', JStr (workspace_path e)),
      (''session_id'', JStr (session_id e)),
      (''timestamp'', JStr (datetime_str now))] @ git_info"

section \<open>task_agent.py\<close>

datatype TaskStatus = PENDING | RUNNING | COMPLETED | FAILED | CANCELLED

fun status_value :: "TaskStatus \<Rightarrow> string" where
  "status_value PENDING = ''pending''"
| "status_value RUNNING = ''running''"
| "status_value COMPLETED = ''completed''"
| "status_value FAILED = ''failed''"
| "status_value CANCELLED = ''cancelled''"

record TaskResult =
  r_task_id :: string
  r_status :: TaskStatus
  r_output :: "pydict option"
  r_error :: "string option"
  r_execution_time :: real
  r_memory_contexts :: "string list option"

record Task =
  t_id :: string
  t_name :: string
  t_description :: string
  t_plugin_chain :: "string list"
  t_parameters :: pydict
  t_priority :: int
  t_created_at :: datetime
  t_context_id :: "string option"

subsection \<open>PluginBase and PluginManager\<close>

text \<open>
  A plugin holds a reference to the memory engine and acts on the world outside the
  program (files, the repository, subprocesses): \<open>execute\<close> takes the state of both, of
  type \<open>'w \<times> MemoryEngine\<close>, and returns it with its result or the exception it raises.
\<close>

record 'w PluginBase =
  p_name :: string
  validate_parameters :: "pydict \<Rightarrow> bool"
  execute :: "pydict \<Rightarrow> pydict \<Rightarrow> 'w \<times> MemoryEngine \<Rightarrow> (error + json) \<times> ('w \<times> MemoryEngine)"

type_synonym 'w PluginManager = "(string \<times> 'w PluginBase) list"

definition register_plugin :: "'w PluginBase \<Rightarrow> 'w PluginManager \<Rightarrow> 'w PluginManager" where
  "register_plugin plugin plugins = AList.update (p_name plugin) plugin plugins"

definition list_plugins :: "'w PluginManager \<Rightarrow> string list" where
  "list_plugins plugins = map fst plugins"

definition quoted :: "string \<Rightarrow> string" where
  "quoted s = [CHR 0x27] @ s @ [CHR 0x27]"

definition execute_plugin ::
  "'w PluginManager \<Rightarrow> string \<Rightarrow> pydict \<Rightarrow> pydict \<Rightarrow> 'w \<times> MemoryEngine \<Rightarrow>
   (error + json) \<times> ('w \<times> MemoryEngine)" where
  "execute_plugin plugins plugin_name parameters context s =
     (case map_of plugins plugin_name of
        None \<Rightarrow> (Inl (ValueError (''Plugin '' @ quoted plugin_name @ '' not found'')), s)
      | Some plugin \<Rightarrow>
          (if \<not> validate_parameters plugin parameters
           then (Inl (ValueError (''Invalid parameters for plugin '' @ quoted plugin_name)), s)
           else execute plugin parameters context s))"

subsection \<open>TaskQueue\<close>

text \<open>
  \<open>asyncio.PriorityQueue\<close> keeps its entries in a list ordered as a binary heap by
  \<open>heapq.heappush\<close> and \<open>heapq.heappop\<close>; the functions below are those two with the
  comparisons they perform. An entry is the tuple \<open>(-priority, created_at, task)\<close>.
  Comparing two tuples compares the first components that differ; when priority and
  creation time agree the tasks themselves are compared, and \<open>Task\<close> defines no order.
\<close>

type_synonym entry = "int \<times> datetime \<times> Task"

text \<open>
  Python's \<open>==\<close> on JSON-compatible values: \<open>bool\<close>, \<open>int\<close> and \<open>float\<close> are compared
  as numbers (\<open>True == 1 == 1.0\<close>), lists element by element, and dictionaries as
  mappings, whatever the order of their keys.
\<close>

fun json_number :: "json \<Rightarrow> real option" where
  "json_number (JBool b) = Some (if b then 1 else 0)"
| "json_number (JInt i) = Some (real_of_int i)"
| "json_number (JFloat x) = Some x"
| "json_number JNull = None"
| "json_number (JStr s) = None"
| "json_number (JList xs) = None"
| "json_number (JObj d) = None"

fun py_eq :: "json \<Rightarrow> json \<Rightarrow> bool" where
  "py_eq (JList xs) (JList ys) = list_all2 py_eq xs ys"
| "py_eq (JObj a) (JObj b) =
     (length a = length b \<and>
      list_all (\<lambda>(k, v). case map_of b k of None \<Rightarrow> False | Some v' \<Rightarrow> py_eq v v') a)"
| "py_eq (JStr s) (JStr t) = (s = t)"
| "py_eq JNull JNull = True"
| "py_eq a b =
     (case (json_number a, json_number b) of (Some x, Some y) \<Rightarrow> x = y | _ \<Rightarrow> False)"

text \<open>The \<open>__eq__\<close> that \<open>@dataclass\<close> generates for \<open>Task\<close>: the fields are compared in turn.\<close>

definition Task_eq :: "Task \<Rightarrow> Task \<Rightarrow> bool" where
  "Task_eq t1 t2 \<longleftrightarrow>
     t_id t1 = t_id t2 \<and> t_name t1 = t_name t2 \<and> t_description t1 = t_description t2 \<and>
     t_plugin_chain t1 = t_plugin_chain t2 \<and>
     py_eq (JObj (t_parameters t1)) (JObj (t_parameters t2)) \<and>
     t_priority t1 = t_priority t2 \<and> t_created_at t1 = t_created_at t2 \<and>
     t_context_id t1 = t_context_id t2"

text \<open>
  \<open>a < b\<close> on two entries: the first components that are not equal are compared with
  \<open><\<close>; \<open>Task\<close> has \<open>==\<close> but no \<open><\<close>.
\<close>

fun entry_lt :: "entry \<Rightarrow> entry \<Rightarrow> error + bool" where
  "entry_lt (p1, c1, t1) (p2, c2, t2) =
     (if p1 \<noteq> p2 then Inr (p1 < p2)
      else if c1 \<noteq> c2 then Inr (c1 < c2)
      else if \<not> Task_eq t1 t2
        then Inl (TypeError (quoted ''<'' @ '' not supported between instances of '' @
                             quoted ''Task'' @ '' and '' @ quoted ''Task''))
      else Inr False)"

function siftdown :: "entry list \<Rightarrow> nat \<Rightarrow> nat \<Rightarrow> (error + unit) \<times> entry list" where
  "siftdown heap startpos pos =
     (if startpos < pos then
        (let parentpos = (pos - 1) div 2 in
         case entry_lt (heap ! pos) (heap ! parentpos) of
           Inl e \<Rightarrow> (Inl e, heap)
         | Inr False \<Rightarrow> (Inr (), heap)
         | Inr True \<Rightarrow>
             siftdown (heap[parentpos := heap ! pos, pos := heap ! parentpos]) startpos parentpos)
      else (Inr (), heap))"
  by pat_completeness auto
termination
  by (relation "measure (\<lambda>(heap, startpos, pos). pos)") auto

function siftup_loop :: "entry list \<Rightarrow> nat \<Rightarrow> (error + nat) \<times> entry list" where
  "siftup_loop heap pos =
     (if pos < length heap div 2 then
        (let childpos = 2 * pos + 1 in
         case (if childpos + 1 < length heap
               then entry_lt (heap ! childpos) (heap ! (childpos + 1)) else Inr True) of
           Inl e \<Rightarrow> (Inl e, heap)
         | Inr lt \<Rightarrow>
             (let c = (if lt then childpos else childpos + 1) in
              siftup_loop (heap[pos := heap ! c, c := heap ! pos]) c))
      else (Inr pos, heap))"
  by pat_completeness auto
termination
  by (relation "measure (\<lambda>(heap, pos). length heap - pos)") auto

definition siftup :: "entry list \<Rightarrow> nat \<Rightarrow> (error + unit) \<times> entry list" where
  "siftup heap pos =
     (case siftup_loop heap pos of
        (Inl e, heap') \<Rightarrow> (Inl e, heap')
      | (Inr leaf, heap') \<Rightarrow> siftdown heap' pos leaf)"

definition heappush :: "entry list \<Rightarrow> entry \<Rightarrow> (error + unit) \<times> entry list" where
  "heappush heap item = siftdown (heap @ [item]) 0 (length heap)"

definition heappop :: "entry list \<Rightarrow> (error + entry) \<times> entry list" where
  "heappop heap =
     (case heap of
        [] \<Rightarrow> (Inl (IndexError ''index out of range''), heap)
      | _ \<Rightarrow>
          (let lastelt = last heap; rest = butlast heap in
           if rest = [] then (Inr lastelt, rest)
           else
             (case siftup (rest[0 := lastelt]) 0 of
                (Inl e, heap') \<Rightarrow> (Inl e, heap')
              | (Inr _, heap') \<Rightarrow> (Inr (rest ! 0), heap'))))"

record TaskQueue =
  max_concurrent :: int
  queue :: "entry list"
  running :: "(string \<times> Task) list"
  results :: "(string \<times> TaskResult) list"

definition TaskQueue_init :: "int \<Rightarrow> TaskQueue" where
  "TaskQueue_init n = \<lparr>max_concurrent = n, queue = [], running = [], results = []\<rparr>"

definition add_task :: "Task \<Rightarrow> TaskQueue \<Rightarrow> (error + unit) \<times> TaskQueue" where
  "add_task task tq =
     (case heappush (queue tq) (- t_priority task, t_created_at task, task) of
        (r, heap) \<Rightarrow> (r, tq\<lparr>queue := heap\<rparr>))"

text \<open>
  \<open>get_next_task\<close> waits for an entry for at most one second; on an empty queue the
  wait times out and the result is \<open>None\<close>.
\<close>

definition get_next_task :: "TaskQueue \<Rightarrow> (error + Task option) \<times> TaskQueue" where
  "get_next_task tq =
     (if queue tq = [] then (Inr None, tq)
      else
        (case heappop (queue tq) of
           (Inl e, heap) \<Rightarrow> (Inl e, tq\<lparr>queue := heap\<rparr>)
         | (Inr (p, c, task), heap) \<Rightarrow> (Inr (Some task), tq\<lparr>queue := heap\<rparr>)))"

definition is_running :: "string \<Rightarrow> TaskQueue \<Rightarrow> bool" where
  "is_running task_id tq = (map_of (running tq) task_id \<noteq> None)"

definition get_result :: "string \<Rightarrow> TaskQueue \<Rightarrow> TaskResult option" where
  "get_result task_id tq = map_of (results tq) task_id"

definition add_result :: "TaskResult \<Rightarrow> TaskQueue \<Rightarrow> TaskQueue" where
  "add_result result tq =
     (let tq' = tq\<lparr>results := AList.update (r_task_id result) result (results tq)\<rparr> in
      if is_running (r_task_id result) tq'
      then tq'\<lparr>running := AList.delete (r_task_id result) (running tq')\<rparr>
      else tq')"

text \<open>The handle kept for a running task is the task whose chain it executes.\<close>

definition add_running_task :: "string \<Rightarrow> Task \<Rightarrow> TaskQueue \<Rightarrow> TaskQueue" where
  "add_running_task task_id async_task tq =
     tq\<lparr>running := AList.update task_id async_task (running tq)\<rparr>"

definition queue_size :: "TaskQueue \<Rightarrow> int" where
  "queue_size tq = int (length (queue tq))"

definition running_count :: "TaskQueue \<Rightarrow> int" where
  "running_count tq = int (length (running tq))"

subsection \<open>TaskAgent\<close>

text \<open>
  \<open>TaskAgent.__init__\<close> builds its queue with \<open>TaskQueue()\<close>, so the cap of an agent
  is the default of the constructor, 3.
\<close>

record 'w TaskAgent =
  memory_engine :: MemoryEngine
  plugin_manager :: "'w PluginManager"
  task_queue :: TaskQueue
  executor_running :: bool

definition TaskAgent_init :: "MemoryEngine \<Rightarrow> 'w TaskAgent" where
  "TaskAgent_init e =
     \<lparr>memory_engine = e, plugin_manager = [], task_queue = TaskQueue_init 3,
      executor_running = False\<rparr>"

text \<open>What \<open>submit_task\<close> reads from outside: the task's \<open>uuid4\<close>, the \<open>datetime.now\<close> of
  \<open>Task.__post_init__\<close>, and what its \<open>store_memory\<close> reads.\<close>

record submit_env =
  task_uuid :: string
  created_now :: datetime
  submit_store :: store_env

definition task_context :: "Task \<Rightarrow> pydict" where
  "task_context task =
     [(''task_id'', JStr (t_id task)),
      (''name'', JStr (t_name task)),
      (''description'', JStr (t_description task)),
      (''plugins'', JList (map JStr (t_plugin_chain task))),
      (''parameters'', JObj (t_parameters task)),
      (''status'', JStr (status_value PENDING))]"

definition new_task ::
  "string \<Rightarrow> string \<Rightarrow> string list \<Rightarrow> pydict \<Rightarrow> int \<Rightarrow> submit_env \<Rightarrow> Task" where
  "new_task name description plugin_chain parameters priority env =
     \<lparr>t_id = task_uuid env, t_name = name, t_description = description,
      t_plugin_chain = plugin_chain, t_parameters = parameters, t_priority = priority,
      t_created_at = created_now env, t_context_id = None\<rparr>"

definition submit_task ::
  "string \<Rightarrow> string \<Rightarrow> string list \<Rightarrow> pydict \<Rightarrow> int \<Rightarrow> submit_env \<Rightarrow> 'w TaskAgent \<Rightarrow>
   (error + string) \<times> 'w TaskAgent" where
  "submit_task name description plugin_chain parameters priority env agent =
     (let task = new_task name description plugin_chain parameters priority env in
      case store_memory (task_context task) (Some [''task'', ''pending'']) (submit_store env)
             (memory_engine agent) of
        (Inl err, e) \<Rightarrow> (Inl err, agent\<lparr>memory_engine := e\<rparr>)
      | (Inr context_id, e) \<Rightarrow>
          (case add_task (task\<lparr>t_context_id := Some context_id\<rparr>) (task_queue agent) of
             (Inl err, tq) \<Rightarrow> (Inl err, agent\<lparr>memory_engine := e, task_queue := tq\<rparr>)
           | (Inr _, tq) \<Rightarrow> (Inr (t_id task), agent\<lparr>memory_engine := e, task_queue := tq\<rparr>)))"

definition get_task_status :: "string \<Rightarrow> 'w TaskAgent \<Rightarrow> TaskStatus option" where
  "get_task_status task_id agent =
     (if is_running task_id (task_queue agent) then Some RUNNING
      else map_option r_status (get_result task_id (task_queue agent)))"

definition get_task_result :: "string \<Rightarrow> 'w TaskAgent \<Rightarrow> TaskResult option" where
  "get_task_result task_id agent = get_result task_id (task_queue agent)"

text \<open>
  What one run of \<open>execute_task_chain\<close> reads from outside: three readings of
  \<open>time.time()\<close> (at the start, for the trailing record, for the result), the clock and
  repository fields of \<open>get_workspace_context\<close>, the \<open>time.time()\<close> of the buffer when
  the task's memory is loaded, and the environment of each \<open>store_memory\<close>: of the
  record after plugin number \<open>i\<close>, of the final record, of the error record.
\<close>

record chain_env =
  t_start :: real
  t_record :: real
  t_return :: real
  workspace_now :: datetime
  git_info :: pydict
  retrieve_clock :: real
  step_env :: "nat \<Rightarrow> store_env"
  final_env :: store_env
  error_env :: store_env

record chain_vars =
  execution_context :: pydict
  chain_output :: pydict
  memory_contexts :: "string list"

definition intermediate_context :: "Task \<Rightarrow> string \<Rightarrow> json \<Rightarrow> pydict \<Rightarrow> pydict" where
  "intermediate_context task plugin_name plugin_result output =
     [(''task_id'', JStr (t_id task)),
      (''plugin'', JStr plugin_name),
      (''output'', plugin_result),
      (''step'', JInt (int (length output)))]"

fun plugin_loop ::
  "'w PluginManager \<Rightarrow> Task \<Rightarrow> (nat \<Rightarrow> store_env) \<Rightarrow> nat \<Rightarrow> string list \<Rightarrow> chain_vars \<Rightarrow>
   'w \<times> MemoryEngine \<Rightarrow> (error + unit) \<times> chain_vars \<times> ('w \<times> MemoryEngine)" where
  "plugin_loop plugins task senv i [] v s = (Inr (), v, s)"
| "plugin_loop plugins task senv i (plugin_name # rest) v s =
     (case execute_plugin plugins plugin_name (t_parameters task) (execution_context v) s of
        (Inl err, s') \<Rightarrow> (Inl err, v, s')
      | (Inr plugin_result, (w, e)) \<Rightarrow>
          (let v' = v\<lparr>execution_context :=
                        AList.update (plugin_name @ ''_output'') plugin_result (execution_context v),
                      chain_output := AList.update plugin_name plugin_result (chain_output v)\<rparr> in
           case store_memory (intermediate_context task plugin_name plugin_result (chain_output v'))
                  (Some [''task'', ''plugin_output'', plugin_name]) (senv i) e of
             (Inl err, e') \<Rightarrow> (Inl err, v', (w, e'))
           | (Inr context_id, e') \<Rightarrow>
               plugin_loop plugins task senv (Suc i) rest
                 (v'\<lparr>memory_contexts := memory_contexts v' @ [context_id]\<rparr>) (w, e')))"

definition load_task_memory ::
  "Task \<Rightarrow> real \<Rightarrow> MemoryEngine \<Rightarrow> (error + MemoryContext option) \<times> MemoryEngine" where
  "load_task_memory task now e =
     (case t_context_id task of
        None \<Rightarrow> (Inr None, e)
      | Some cid \<Rightarrow> if cid = [] then (Inr None, e) else retrieve_memory cid now e)"

definition initial_vars :: "Task \<Rightarrow> chain_env \<Rightarrow> MemoryContext option \<Rightarrow> MemoryEngine \<Rightarrow> chain_vars" where
  "initial_vars task env task_memory e =
     \<lparr>execution_context =
        [(''task_id'', JStr (t_id task)),
         (''workspace'', JObj (get_workspace_context (workspace_now env) (git_info env) e)),
         (''task_memory'', JObj (case task_memory of None \<Rightarrow> [] | Some m \<Rightarrow> mc_content m)),
         (''parameters'', JObj (t_parameters task))],
      chain_output = [],
      memory_contexts = []\<rparr>"

definition final_context :: "Task \<Rightarrow> chain_env \<Rightarrow> pydict \<Rightarrow> pydict" where
  "final_context task env output =
     [(''task_id'', JStr (t_id task)),
      (''status'', JStr ''completed''),
      (''final_output'', JObj output),
      (''execution_time'', JFloat (t_record env - t_start env))]"

definition error_context :: "Task \<Rightarrow> chain_env \<Rightarrow> error \<Rightarrow> pydict" where
  "error_context task env err =
     [(''task_id'', JStr (t_id task)),
      (''status'', JStr ''failed''),
      (''error'', JStr (str_error err)),
      (''execution_time'', JFloat (t_record env - t_start env))]"

text \<open>The \<open>except Exception\<close> block of \<open>execute_task_chain\<close>.\<close>

definition on_exception ::
  "Task \<Rightarrow> chain_env \<Rightarrow> error \<Rightarrow> string list \<Rightarrow> 'w \<times> MemoryEngine \<Rightarrow>
   (error + TaskResult) \<times> ('w \<times> MemoryEngine)" where
  "on_exception task env err contexts s =
     (case store_memory (error_context task env err) (Some [''task'', ''failed'', ''error''])
             (error_env env) (snd s) of
        (Inl err', e) \<Rightarrow> (Inl err', (fst s, e))
      | (Inr error_context_id, e) \<Rightarrow>
          (Inr \<lparr>r_task_id = t_id task, r_status = FAILED, r_output = None,
                r_error = Some (str_error err),
                r_execution_time = t_return env - t_start env,
                r_memory_contexts = Some (contexts @ [error_context_id])\<rparr>,
           (fst s, e)))"

text \<open>
  The \<open>try\<close> block of \<open>execute_task_chain\<close>: its result or the exception that leaves
  it, with the list \<open>memory_contexts\<close> as it is at that moment.
\<close>

definition try_block ::
  "'w PluginManager \<Rightarrow> Task \<Rightarrow> chain_env \<Rightarrow> 'w \<times> MemoryEngine \<Rightarrow>
   (error + TaskResult) \<times> string list \<times> ('w \<times> MemoryEngine)" where
  "try_block plugins task env s =
     (case load_task_memory task (retrieve_clock env) (snd s) of
        (Inl err, e) \<Rightarrow> (Inl err, [], (fst s, e))
      | (Inr task_memory, e) \<Rightarrow>
          (case plugin_loop plugins task (step_env env) 0 (t_plugin_chain task)
                  (initial_vars task env task_memory (snd s)) (fst s, e) of
             (Inl err, v, s') \<Rightarrow> (Inl err, memory_contexts v, s')
           | (Inr _, v, (w, e')) \<Rightarrow>
               (case store_memory (final_context task env (chain_output v))
                       (Some [''task'', ''completed'', t_name task]) (final_env env) e' of
                  (Inl err, e'') \<Rightarrow> (Inl err, memory_contexts v, (w, e''))
                | (Inr final_context_id, e'') \<Rightarrow>
                    (Inr \<lparr>r_task_id = t_id task, r_status = COMPLETED,
                          r_output = Some (chain_output v), r_error = None,
                          r_execution_time = t_return env - t_start env,
                          r_memory_contexts = Some (memory_contexts v @ [final_context_id])\<rparr>,
                     memory_contexts v @ [final_context_id], (w, e'')))))"

definition execute_task_chain ::
  "'w PluginManager \<Rightarrow> Task \<Rightarrow> chain_env \<Rightarrow> 'w \<times> MemoryEngine \<Rightarrow>
   (error + TaskResult) \<times> ('w \<times> MemoryEngine)" where
  "execute_task_chain plugins task env s =
     (case try_block plugins task env s of
        (Inl err, contexts, s') \<Rightarrow> on_exception task env err contexts s'
      | (Inr result, contexts, s') \<Rightarrow> (Inr result, s'))"

text \<open>
  \<open>_handle_task_completion\<close>: \<open>outcome\<close> is what awaiting the finished chain gives,
  its result or the exception it raised.
\<close>

definition handle_task_completion :: "string \<Rightarrow> error + TaskResult \<Rightarrow> TaskQueue \<Rightarrow> TaskQueue" where
  "handle_task_completion task_id outcome tq =
     (case outcome of
        Inr result \<Rightarrow> add_result result tq
      | Inl e \<Rightarrow>
          add_result \<lparr>r_task_id = task_id, r_status = FAILED, r_output = None,
                      r_error = Some (str_error e), r_execution_time = 0,
                      r_memory_contexts = None\<rparr> tq)"

text \<open>
  \<open>_task_executor\<close> runs on one event loop with the coroutines that submit tasks and
  that handle completions. It can be suspended at two places: in the \<open>sleep\<close> before
  the capacity check, and inside \<open>get_next_task\<close> after the check has passed. A step
  of the system is one uninterrupted piece of one coroutine.
\<close>

datatype executor_pc = AtCheck | AtGet

inductive executor_step :: "executor_pc \<times> TaskQueue \<Rightarrow> executor_pc \<times> TaskQueue \<Rightarrow> bool" where
  at_capacity:
    "max_concurrent tq \<le> running_count tq \<Longrightarrow> executor_step (AtCheck, tq) (AtCheck, tq)"
| below_capacity:
    "running_count tq < max_concurrent tq \<Longrightarrow> executor_step (AtCheck, tq) (AtGet, tq)"
| no_task:
    "get_next_task tq = (Inr None, tq') \<Longrightarrow> executor_step (AtGet, tq) (AtCheck, tq')"
| start_task:
    "get_next_task tq = (Inr (Some task), tq') \<Longrightarrow>
     executor_step (AtGet, tq) (AtCheck, add_running_task (t_id task) task tq')"
| executor_error:
    "get_next_task tq = (Inl err, tq') \<Longrightarrow> executor_step (AtGet, tq) (AtCheck, tq')"
| submitted:
    "add_task task tq = (r, tq') \<Longrightarrow> executor_step (pc, tq) (pc, tq')"
| completed:
    "executor_step (pc, tq) (pc, handle_task_completion task_id outcome tq)"

inductive reachable :: "int \<Rightarrow> executor_pc \<times> TaskQueue \<Rightarrow> bool" where
  start: "reachable n (AtCheck, TaskQueue_init n)"
| step: "reachable n s \<Longrightarrow> executor_step s s' \<Longrightarrow> reachable n s'"

definition search_task_history ::
  "search_backend \<Rightarrow> string \<Rightarrow> int \<Rightarrow> (nat \<Rightarrow> real) \<Rightarrow> MemoryEngine \<Rightarrow>
   (error + MemoryContext list) \<times> MemoryEngine" where
  "search_task_history backend query limit clk e =
     search_memories backend query (Some [''task'']) limit clk e"

section \<open>Predicates and functions used in the statements\<close>

definition wf_buffer :: "RAMBuffer \<Rightarrow> bool" where
  "wf_buffer b \<longleftrightarrow> distinct (map fst (buffer b)) \<and> map fst (access_times b) = map fst (buffer b)"

fun RAMBuffer_puts :: "(string \<times> MemoryContext \<times> real) list \<Rightarrow> RAMBuffer \<Rightarrow> (error + unit) \<times> RAMBuffer" where
  "RAMBuffer_puts [] b = (Inr (), b)"
| "RAMBuffer_puts ((k, c, t) # xs) b =
     (case RAMBuffer_put k c t b of
        (Inl e, b') \<Rightarrow> (Inl e, b')
      | (Inr _, b') \<Rightarrow> RAMBuffer_puts xs b')"

definition entry_of :: "string \<times> MemoryContext \<times> real \<Rightarrow> string \<times> MemoryContext" where
  "entry_of x = (fst x, fst (snd x))"

definition stamp_of :: "string \<times> MemoryContext \<times> real \<Rightarrow> string \<times> real" where
  "stamp_of x = (fst x, snd (snd x))"

definition protected :: "string set \<Rightarrow> string \<Rightarrow> RAMBuffer \<Rightarrow> bool" where
  "protected Old K b \<longleftrightarrow>
     wf_buffer b \<and>
     (\<forall>k' t'. k' \<in> Old \<and> k' \<noteq> K \<and> map_of (access_times b) k' = Some t' \<longrightarrow>
        (\<exists>tK. map_of (access_times b) K = Some tK \<and> t' < tK))"

declare datetime_str.simps [simp del]

definition keeps :: "string \<Rightarrow> MemoryContext \<Rightarrow> MemoryEngine \<Rightarrow> bool" where
  "keeps cid ctx e \<longleftrightarrow>
     wf_buffer (ram_buffer e) \<and>
     persistent_store e cid = Some (asdict ctx) \<and>
     (\<forall>c. map_of (buffer (ram_buffer e)) cid = Some c \<longrightarrow> c = ctx)"

datatype op = Store pydict "string list option" store_env | Retrieve string real

fun run_op :: "op \<Rightarrow> MemoryEngine \<Rightarrow> MemoryEngine" where
  "run_op (Store cont tgs env) e = snd (store_memory cont tgs env e)"
| "run_op (Retrieve cid now) e = snd (retrieve_memory cid now e)"

fun run_ops :: "op list \<Rightarrow> MemoryEngine \<Rightarrow> MemoryEngine" where
  "run_ops [] e = e"
| "run_ops (x # xs) e = run_ops xs (run_op x e)"

fun stores_id :: "string \<Rightarrow> op \<Rightarrow> bool" where
  "stores_id cid (Store cont tgs env) = (new_id env = cid)"
| "stores_id cid (Retrieve k now) = False"

definition sample :: "string \<Rightarrow> MemoryContext" where
  "sample k = \<lparr>mc_id = k, mc_content = [(''note'', JStr k)], mc_tags = [''t''], mc_timestamp = 7,
     mc_session_id = ''s'', mc_workspace_path = None, mc_git_hash = None\<rparr>"

definition sample_env :: "string \<Rightarrow> real \<Rightarrow> string option \<Rightarrow> store_env" where
  "sample_env k t failure = \<lparr>new_id = k, git_head = None, now_utc = 7, clock = t,
     durable_failure = failure, index_failure = None\<rparr>"

definition sample_buffer :: RAMBuffer where
  "sample_buffer = \<lparr>max_size = 3,
     buffer = [(''a'', sample ''a''), (''b'', sample ''b''), (''c'', sample ''c'')],
     access_times = [(''a'', 1), (''b'', 2), (''c'', 3)]\<rparr>"

definition sample_content :: pydict where
  "sample_content =
     [(''task'', JStr ''index''),
      (''nested'', JObj [(''xs'', JList [JInt 1, JNull, JObj [(''deep'', JBool True)]]),
                         (''ratio'', JFloat (1 / 2))])]"

definition sample_engine :: MemoryEngine where
  "sample_engine = MemoryEngine_init ''session'' ''/work'' 2"

definition sample_stores :: "op list" where
  "sample_stores =
     [Store [(''n'', JInt 2)] None (sample_env ''id2'' 2 None),
      Store [(''n'', JInt 3)] None (sample_env ''id3'' 3 None),
      Store [(''n'', JInt 4)] None (sample_env ''id4'' 4 None),
      Store [(''n'', JInt 5)] None (sample_env ''id5'' 5 None),
      Store [(''n'', JInt 6)] None (sample_env ''id6'' 6 None),
      Store [(''n'', JInt 7)] None (sample_env ''id7'' 7 None)]"

fun retrieved :: "(string \<times> real) list \<Rightarrow> (nat \<Rightarrow> real) \<Rightarrow> nat \<Rightarrow> MemoryEngine \<Rightarrow> MemoryContext list" where
  "retrieved [] clk i e = []"
| "retrieved ((context_id, score) # rest) clk i e =
     (case retrieve_memory context_id (clk i) e of
        (Inl err, e') \<Rightarrow> []
      | (Inr None, e') \<Rightarrow> retrieved rest clk (Suc i) e'
      | (Inr (Some context), e') \<Rightarrow> context # retrieved rest clk (Suc i) e')"

definition error_iff_failed :: "TaskResult \<Rightarrow> bool" where
  "error_iff_failed r \<longleftrightarrow> (r_error r \<noteq> None) = (r_status r = FAILED)"

definition within_cap :: "int \<Rightarrow> executor_pc \<times> TaskQueue \<Rightarrow> bool" where
  "within_cap n s \<longleftrightarrow>
     max_concurrent (snd s) = n \<and> running_count (snd s) \<le> n \<and>
     (fst s = AtGet \<longrightarrow> running_count (snd s) < n)"

definition search_stores :: "op list" where
  "search_stores =
     [Store [(''n'', JInt 1)] (Some [''note'']) (sample_env ''n1'' 1 None),
      Store [(''n'', JInt 2)] (Some [''task'', ''pending'']) (sample_env ''t1'' 2 None),
      Store [(''n'', JInt 3)] (Some [''task'']) (sample_env ''t2'' 3 None)]"

definition sample_backend :: search_backend where
  "sample_backend ix query n = Inr (take (nat n) (map (\<lambda>p. (fst p, 1)) ix))"

definition sample_task :: Task where
  "sample_task = \<lparr>t_id = ''task-1'', t_name = ''echo'', t_description = ''say it'',
     t_plugin_chain = [''echo''], t_parameters = [(''message'', JStr ''hi'')], t_priority = 3,
     t_created_at = 100, t_context_id = Some ''id1''\<rparr>"

definition task_a :: Task where
  "task_a = \<lparr>t_id = ''a'', t_name = ''urgent'', t_description = '''', t_plugin_chain = [''echo''],
     t_parameters = [], t_priority = 5, t_created_at = 1, t_context_id = None\<rparr>"

definition task_b :: Task where
  "task_b = \<lparr>t_id = ''b'', t_name = ''first'', t_description = '''', t_plugin_chain = [''echo''],
     t_parameters = [], t_priority = 1, t_created_at = 2, t_context_id = None\<rparr>"

definition task_c :: Task where
  "task_c = \<lparr>t_id = ''c'', t_name = ''second'', t_description = '''', t_plugin_chain = [''echo''],
     t_parameters = [], t_priority = 1, t_created_at = 2, t_context_id = None\<rparr>"

fun add_tasks :: "Task list \<Rightarrow> TaskQueue \<Rightarrow> TaskQueue" where
  "add_tasks [] tq = tq"
| "add_tasks (t # ts) tq = add_tasks ts (snd (add_task t tq))"

definition entry_key :: "entry \<Rightarrow> int \<times> datetime" where
  "entry_key x = (fst x, fst (snd x))"

definition task_entry :: "Task \<Rightarrow> entry" where
  "task_entry task = (- t_priority task, t_created_at task, task)"

definition sample_agent :: "string list TaskAgent" where
  "sample_agent = TaskAgent_init sample_engine"

definition sample_submit_env :: submit_env where
  "sample_submit_env = \<lparr>task_uuid = ''task-1'', created_now = 100,
     submit_store = sample_env ''id1'' 1 None\<rparr>"

definition second_submit_env :: submit_env where
  "second_submit_env = \<lparr>task_uuid = ''task-2'', created_now = 100,
     submit_store = sample_env ''id2'' 2 None\<rparr>"

definition submitted_agent :: "string list TaskAgent" where
  "submitted_agent =
     snd (submit_task ''echo'' ''say it'' [''echo''] [(''message'', JStr ''hi'')] 3
            sample_submit_env sample_agent)"



definition sample_plugin :: "string \<Rightarrow> string list PluginBase" where
  "sample_plugin n =
     \<lparr>p_name = n, validate_parameters = (\<lambda>params. True),
      execute = (\<lambda>params ctx s. (Inr (JObj [(''ran'', JStr n)]), (fst s @ [n], snd s)))\<rparr>"

definition failing_plugin :: "string \<Rightarrow> string list PluginBase" where
  "failing_plugin n =
     \<lparr>p_name = n, validate_parameters = (\<lambda>params. True),
      execute = (\<lambda>params ctx s. (Inl (PluginError (n @ '' failed'')), (fst s @ [n], snd s)))\<rparr>"

definition sample_plugins :: "string list PluginManager" where
  "sample_plugins =
     register_plugin (sample_plugin ''p3'')
       (register_plugin (failing_plugin ''p2'') (register_plugin (sample_plugin ''p1'') []))"

definition sample_chain_env :: chain_env where
  "sample_chain_env =
     \<lparr>t_start = 0, t_record = 1, t_return = 2, workspace_now = 50, git_info = [],
      retrieve_clock = 20,
      step_env = (\<lambda>i. sample_env (replicate (Suc i) CHR ''s'') (30 + real i) None),
      final_env = sample_env ''final'' 40 None,
      error_env = sample_env ''error'' 41 None\<rparr>"

definition chain_task :: "string list \<Rightarrow> Task" where
  "chain_task names = \<lparr>t_id = ''task-1'', t_name = ''demo'', t_description = '''',
     t_plugin_chain = names, t_parameters = [], t_priority = 1, t_created_at = 100,
     t_context_id = None\<rparr>"



definition parent :: "nat \<Rightarrow> nat" where
  "parent i = (i - 1) div 2"

definition heap_ok :: "entry list \<Rightarrow> bool" where
  "heap_ok h \<longleftrightarrow> (\<forall>i < length h. 0 < i \<longrightarrow> entry_key (h ! parent i) < entry_key (h ! i))"

definition heap_except :: "entry list \<Rightarrow> nat \<Rightarrow> bool" where
  "heap_except h pos \<longleftrightarrow>
     (\<forall>i < length h. 0 < i \<and> i \<noteq> pos \<longrightarrow>
        (if parent i = pos then 0 < pos \<longrightarrow> entry_key (h ! parent pos) < entry_key (h ! i)
         else entry_key (h ! parent i) < entry_key (h ! i)))"

definition below_ok :: "entry list \<Rightarrow> nat \<Rightarrow> bool" where
  "below_ok h pos \<longleftrightarrow>
     (\<forall>i < length h. 0 < i \<and> parent i = pos \<longrightarrow> entry_key (h ! pos) < entry_key (h ! i))"

definition queue_ok :: "TaskQueue \<Rightarrow> bool" where
  "queue_ok tq \<longleftrightarrow>
     heap_ok (queue tq) \<and> distinct (map entry_key (queue tq)) \<and>
     (\<forall>x \<in> set (queue tq). x = task_entry (snd (snd x)))"

definition priority_task :: "string \<Rightarrow> int \<Rightarrow> datetime \<Rightarrow> Task" where
  "priority_task i p c = \<lparr>t_id = i, t_name = i, t_description = [], t_plugin_chain = [''echo''],
     t_parameters = [], t_priority = p, t_created_at = c, t_context_id = None\<rparr>"

section \<open>Properties\<close>

lemma py_min_in: "py_min p ps \<in> set (p # ps)"
  by (induction ps arbitrary: p) auto

lemma py_min_le_best: "snd (py_min p ps) \<le> snd p"
proof (induction ps arbitrary: p)
  case Nil
  show ?case by simp
next
  case (Cons a ps)
  show ?case
  proof (cases "snd a < snd p")
    case True
    have "snd (py_min a ps) \<le> snd a" by (rule Cons.IH)
    with True show ?thesis by simp
  next
    case False
    then show ?thesis using Cons.IH[of p] by simp
  qed
qed

lemma py_min_le: "q \<in> set ps \<Longrightarrow> snd (py_min p ps) \<le> snd q"
proof (induction ps arbitrary: p)
  case Nil
  then show ?case by simp
next
  case (Cons a ps)
  show ?case
  proof (cases "q = a")
    case True
    show ?thesis
    proof (cases "snd a < snd p")
      case True
      then show ?thesis using py_min_le_best[of a ps] \<open>q = a\<close> by simp
    next
      case False
      then have "snd p \<le> snd a" by simp
      with False show ?thesis using py_min_le_best[of p ps] \<open>q = a\<close> by simp
    qed
  next
    case False
    with Cons.prems have "q \<in> set ps" by simp
    then show ?thesis using Cons.IH by simp
  qed
qed

lemma py_min_first: "\<forall>q \<in> set ps. snd p \<le> snd q \<Longrightarrow> py_min p ps = p"
  by (induction ps) auto

lemma update_fresh: "k \<notin> fst ` set al \<Longrightarrow> AList.update k v al = al @ [(k, v)]"
  by (induction al) auto

lemma keys_eq:
  assumes "map fst al = map fst bl"
  shows "fst ` set al = fst ` set bl"
proof -
  have "set (map fst al) = set (map fst bl)" using assms by simp
  then show ?thesis by simp
qed

lemma wf_keys: "wf_buffer b \<Longrightarrow> fst ` set (buffer b) = fst ` set (access_times b)"
  using keys_eq[of "access_times b" "buffer b"] by (simp add: wf_buffer_def)

lemma wf_distinct: "wf_buffer b \<Longrightarrow> distinct (map fst (buffer b))"
  by (simp add: wf_buffer_def)

lemma wf_distinct_times: "wf_buffer b \<Longrightarrow> distinct (map fst (access_times b))"
  by (metis wf_buffer_def)

lemma map_of_Some_key: "map_of al k = Some v \<Longrightarrow> k \<in> fst ` set al"
  by (induction al) (auto split: if_splits)

lemma key_map_of_Some: "k \<in> fst ` set al \<Longrightarrow> \<exists>v. map_of al k = Some v"
  by (induction al) auto

lemma wf_get: "wf_buffer b \<Longrightarrow> wf_buffer (snd (RAMBuffer_get k t b))"
proof (cases "map_of (buffer b) k")
  case None
  assume "wf_buffer b"
  with None show ?thesis by (simp add: RAMBuffer_get_def)
next
  case (Some c)
  assume wf: "wf_buffer b"
  from Some have "k \<in> fst ` set (buffer b)" by (rule map_of_Some_key)
  then have "k \<in> fst ` set (access_times b)" using wf_keys[OF wf] by simp
  then have "map fst (AList.update k t (access_times b)) = map fst (access_times b)"
    by (simp add: update_keys)
  with Some wf show ?thesis by (auto simp: RAMBuffer_get_def wf_buffer_def)
qed

lemma wf_delete:
  "wf_buffer b \<Longrightarrow>
   wf_buffer (b\<lparr>buffer := AList.delete k (buffer b), access_times := AList.delete k (access_times b)\<rparr>)"
  by (auto simp: wf_buffer_def delete_keys distinct_removeAll)

lemma evict_ok:
  assumes "wf_buffer b"
  shows "fst (RAMBuffer_evict_lru b) = Inr ()" and "wf_buffer (snd (RAMBuffer_evict_lru b))"
proof -
  show "fst (RAMBuffer_evict_lru b) = Inr ()"
  proof (cases "access_times b")
    case Nil
    then show ?thesis by (simp add: RAMBuffer_evict_lru_def)
  next
    case (Cons p ps)
    have "py_min p ps \<in> set (access_times b)" using py_min_in[of p ps] Cons by simp
    then have "fst (py_min p ps) \<in> fst ` set (buffer b)"
      using wf_keys[OF assms] by simp
    then obtain c where "map_of (buffer b) (fst (py_min p ps)) = Some c"
      using key_map_of_Some[of "fst (py_min p ps)" "buffer b"] by blast
    with Cons show ?thesis by (simp add: RAMBuffer_evict_lru_def Let_def)
  qed
  show "wf_buffer (snd (RAMBuffer_evict_lru b))"
  proof (cases "access_times b")
    case Nil
    then show ?thesis using assms by (simp add: RAMBuffer_evict_lru_def)
  next
    case (Cons p ps)
    show ?thesis
    proof (cases "map_of (buffer b) (fst (py_min p ps))")
      case None
      with Cons show ?thesis using assms by (simp add: RAMBuffer_evict_lru_def Let_def)
    next
      case (Some c)
      with Cons show ?thesis using wf_delete[OF assms, of "fst (py_min p ps)"]
        by (simp add: RAMBuffer_evict_lru_def Let_def)
    qed
  qed
qed

lemma put_ok:
  assumes "wf_buffer b"
  shows "fst (RAMBuffer_put k c t b) = Inr ()" and "wf_buffer (snd (RAMBuffer_put k c t b))"
proof -
  let ?r = "if max_size b \<le> int (length (buffer b)) then RAMBuffer_evict_lru b else (Inr (), b)"
  have 1: "fst ?r = Inr ()" and 2: "wf_buffer (snd ?r)"
    using evict_ok[OF assms] assms by auto
  obtain b' where r: "?r = (Inr (), b')" using 1 by (cases ?r) auto
  then have wf': "wf_buffer b'" using 2 by simp
  show "fst (RAMBuffer_put k c t b) = Inr ()"
    unfolding RAMBuffer_put_def r by simp
  show "wf_buffer (snd (RAMBuffer_put k c t b))"
  proof -
    have "map fst (AList.update k c (buffer b')) = map fst (AList.update k t (access_times b'))"
      using wf' wf_keys[OF wf'] by (auto simp: wf_buffer_def update_keys)
    moreover have "distinct (map fst (AList.update k c (buffer b')))"
      using wf' by (auto simp: wf_buffer_def distinct_update)
    ultimately show ?thesis
      unfolding RAMBuffer_put_def r by (simp add: wf_buffer_def)
  qed
qed

lemma get_hit:
  "map_of (buffer b) k = Some c \<Longrightarrow>
   RAMBuffer_get k t b = (Some c, b\<lparr>access_times := AList.update k t (access_times b)\<rparr>)"
  by (simp add: RAMBuffer_get_def)

lemma get_miss: "map_of (buffer b) k = None \<Longrightarrow> RAMBuffer_get k t b = (None, b)"
  by (simp add: RAMBuffer_get_def)

lemma put_below:
  "int (length (buffer b)) < max_size b \<Longrightarrow>
   RAMBuffer_put k c t b =
     (Inr (), b\<lparr>buffer := AList.update k c (buffer b),
                access_times := AList.update k t (access_times b)\<rparr>)"
  by (simp add: RAMBuffer_put_def)

lemma length_delete_distinct:
  "distinct (map fst al) \<Longrightarrow> k \<in> fst ` set al \<Longrightarrow> length (AList.delete k al) = length al - 1"
proof (induction al)
  case Nil
  then show ?case by simp
next
  case (Cons p al)
  show ?case
  proof (cases "fst p = k")
    case True
    then have "k \<notin> fst ` set al" using Cons.prems(1) by auto
    then show ?thesis using True by (simp add: delete_id)
  next
    case False
    then have "k \<in> fst ` set al" using Cons.prems(2) by auto
    moreover then have "al \<noteq> []" by auto
    ultimately show ?thesis using False Cons by (cases al) auto
  qed
qed

lemma length_update_le: "length (AList.update k v al) \<le> Suc (length al)"
  by (induction al) auto

lemma put_full:
  assumes wf: "wf_buffer b" and full: "max_size b \<le> int (length (buffer b))"
    and ne: "access_times b = p # ps"
  shows "RAMBuffer_put k c t b =
     (Inr (), b\<lparr>buffer := AList.update k c (AList.delete (fst (py_min p ps)) (buffer b)),
                access_times := AList.update k t (AList.delete (fst (py_min p ps)) (access_times b))\<rparr>)"
proof -
  have "py_min p ps \<in> set (access_times b)" using py_min_in[of p ps] ne by simp
  then have "fst (py_min p ps) \<in> fst ` set (buffer b)" using wf_keys[OF wf] by simp
  then obtain c' where "map_of (buffer b) (fst (py_min p ps)) = Some c'"
    using key_map_of_Some[of "fst (py_min p ps)" "buffer b"] by blast
  then show ?thesis using full ne by (simp add: RAMBuffer_put_def RAMBuffer_evict_lru_def Let_def)
qed

lemma put_bound:
  assumes wf: "wf_buffer b" and pos: "1 \<le> max_size b"
    and le: "int (length (buffer b)) \<le> max_size b"
  shows "int (length (buffer (snd (RAMBuffer_put k c t b)))) \<le> max_size b"
    and "max_size (snd (RAMBuffer_put k c t b)) = max_size b"
proof -
  show "int (length (buffer (snd (RAMBuffer_put k c t b)))) \<le> max_size b"
  proof (cases "int (length (buffer b)) < max_size b")
    case True
    have "length (AList.update k c (buffer b)) \<le> Suc (length (buffer b))"
      by (rule length_update_le)
    with True show ?thesis by (simp add: put_below)
  next
    case False
    then have full: "max_size b \<le> int (length (buffer b))" by simp
    then have "buffer b \<noteq> []" using pos by auto
    then have "access_times b \<noteq> []" using wf by (auto simp: wf_buffer_def)
    then obtain p ps where ne: "access_times b = p # ps" by (cases "access_times b") auto
    let ?v = "fst (py_min p ps)"
    have "py_min p ps \<in> set (access_times b)" using py_min_in[of p ps] ne by simp
    then have vin: "?v \<in> fst ` set (buffer b)" using wf_keys[OF wf] by simp
    have "length (AList.delete ?v (buffer b)) = length (buffer b) - 1"
      by (rule length_delete_distinct[OF wf_distinct[OF wf] vin])
    moreover have "length (AList.update k c (AList.delete ?v (buffer b)))
        \<le> Suc (length (AList.delete ?v (buffer b)))"
      by (rule length_update_le)
    ultimately show ?thesis using le \<open>buffer b \<noteq> []\<close>
      by (simp add: put_full[OF wf full ne])
  qed
  show "max_size (snd (RAMBuffer_put k c t b)) = max_size b"
    by (simp add: RAMBuffer_put_def RAMBuffer_evict_lru_def Let_def
        split: list.splits option.splits)
qed

lemma puts_append:
  "RAMBuffer_puts (xs @ ys) b =
     (case RAMBuffer_puts xs b of (Inl e, b') \<Rightarrow> (Inl e, b') | (Inr u, b') \<Rightarrow> RAMBuffer_puts ys b')"
  by (induction xs arbitrary: b) (auto split: prod.splits sum.splits)

lemma puts_fill:
  assumes "distinct (map fst xs)" and "fst ` set xs \<inter> fst ` set (buffer b) = {}"
    and "wf_buffer b" and "int (length (buffer b) + length xs) \<le> max_size b"
  shows "RAMBuffer_puts xs b =
     (Inr (), b\<lparr>buffer := buffer b @ map entry_of xs,
                access_times := access_times b @ map stamp_of xs\<rparr>)"
  using assms
proof (induction xs arbitrary: b)
  case Nil
  then show ?case by simp
next
  case (Cons x xs)
  obtain k c t where x: "x = (k, c, t)" by (cases x) auto
  let ?b' = "b\<lparr>buffer := AList.update k c (buffer b),
                access_times := AList.update k t (access_times b)\<rparr>"
  have below: "int (length (buffer b)) < max_size b" using Cons.prems(4) by simp
  have kfresh: "k \<notin> fst ` set (buffer b)" using Cons.prems(2) x by auto
  then have kfresh': "k \<notin> fst ` set (access_times b)" using wf_keys[OF Cons.prems(3)] by simp
  have put: "RAMBuffer_put k c t b = (Inr (), ?b')" using below by (rule put_below)
  have bu: "buffer ?b' = buffer b @ [(k, c)]" using kfresh by (simp add: update_fresh)
  have au: "access_times ?b' = access_times b @ [(k, t)]" using kfresh' by (simp add: update_fresh)
  have wf': "wf_buffer ?b'" using put_ok(2)[OF Cons.prems(3), of k c t] put by simp
  have d: "distinct (map fst xs)" using Cons.prems(1) by simp
  have disj: "fst ` set xs \<inter> fst ` set (buffer ?b') = {}"
    using Cons.prems(1,2) x bu by auto
  have len: "int (length (buffer ?b') + length xs) \<le> max_size ?b'"
    using Cons.prems(4) bu by simp
  have "RAMBuffer_puts xs ?b' =
     (Inr (), ?b'\<lparr>buffer := buffer ?b' @ map entry_of xs,
                  access_times := access_times ?b' @ map stamp_of xs\<rparr>)"
    by (rule Cons.IH[OF d disj wf' len])
  then show ?case using put x bu au by (simp add: entry_of_def stamp_of_def)
qed

lemma lru_first_evicted:
  assumes N: "1 \<le> N" and len: "length ys = nat N"
    and dist: "distinct (map fst (x # ys))"
    and mono: "\<forall>y \<in> set ys. snd (snd x) \<le> snd (snd y)"
  shows "RAMBuffer_puts (x # ys) (RAMBuffer_init N) =
     (Inr (), \<lparr>max_size = N, buffer = map entry_of ys, access_times = map stamp_of ys\<rparr>)"
proof -
  from N len have ne: "ys \<noteq> []" by auto
  define zs where "zs = butlast ys"
  define z where "z = last ys"
  have ys: "ys = zs @ [z]" using ne by (simp add: zs_def z_def)
  obtain k c t where z: "z = (k, c, t)" by (cases z) auto
  let ?B = "\<lparr>max_size = N, buffer = map entry_of (x # zs), access_times = map stamp_of (x # zs)\<rparr>"
  have wf0: "wf_buffer (RAMBuffer_init N)" by (simp add: wf_buffer_def RAMBuffer_init_def)
  have lenz: "int (length (x # zs)) = N" using len ys N by simp
  have fill: "RAMBuffer_puts (x # zs) (RAMBuffer_init N) = (Inr (), ?B)"
  proof -
    have "distinct (map fst (x # zs))" using dist ys by auto
    moreover have "fst ` set (x # zs) \<inter> fst ` set (buffer (RAMBuffer_init N)) = {}"
      by (simp add: RAMBuffer_init_def)
    moreover note wf0
    moreover have "int (length (buffer (RAMBuffer_init N)) + length (x # zs)) \<le> max_size (RAMBuffer_init N)"
      using lenz by (simp add: RAMBuffer_init_def)
    ultimately have "RAMBuffer_puts (x # zs) (RAMBuffer_init N) =
      (Inr (), (RAMBuffer_init N)\<lparr>buffer := buffer (RAMBuffer_init N) @ map entry_of (x # zs),
          access_times := access_times (RAMBuffer_init N) @ map stamp_of (x # zs)\<rparr>)"
      by (rule puts_fill)
    then show ?thesis by (simp add: RAMBuffer_init_def)
  qed
  have wfB: "wf_buffer ?B"
    using put_ok wf0 dist ys by (auto simp: wf_buffer_def entry_of_def stamp_of_def comp_def)
  have full: "max_size ?B \<le> int (length (buffer ?B))" using lenz by simp
  have at: "access_times ?B = stamp_of x # map stamp_of zs" by simp
  have first: "py_min (stamp_of x) (map stamp_of zs) = stamp_of x"
    using mono ys by (intro py_min_first) (auto simp: stamp_of_def)
  have kx: "fst x \<notin> fst ` set zs" and kz: "k \<noteq> fst x" and kzs: "k \<notin> fst ` set zs"
    using dist ys z by auto
  have put: "RAMBuffer_put k c t ?B =
     (Inr (), ?B\<lparr>buffer := AList.update k c (AList.delete (fst (stamp_of x)) (buffer ?B)),
          access_times := AList.update k t (AList.delete (fst (stamp_of x)) (access_times ?B))\<rparr>)"
    using put_full[OF wfB full at, of k c t] first by simp
  have d1: "AList.delete (fst x) (map entry_of zs) = map entry_of zs"
    using kx by (intro delete_id) (auto simp: entry_of_def image_iff)
  have d2: "AList.delete (fst x) (map stamp_of zs) = map stamp_of zs"
    using kx by (intro delete_id) (auto simp: stamp_of_def image_iff)
  have u1: "AList.update k c (map entry_of zs) = map entry_of zs @ [(k, c)]"
    using kzs by (intro update_fresh) (auto simp: entry_of_def image_iff)
  have u2: "AList.update k t (map stamp_of zs) = map stamp_of zs @ [(k, t)]"
    using kzs by (intro update_fresh) (auto simp: stamp_of_def image_iff)
  have "RAMBuffer_put k c t ?B =
     (Inr (), \<lparr>max_size = N, buffer = map entry_of ys, access_times = map stamp_of ys\<rparr>)"
    unfolding put using d1 d2 u1 u2 ys z
    by (simp add: entry_of_def[of x] stamp_of_def[of x] entry_of_def[of "(k, c, t)"]
        stamp_of_def[of "(k, c, t)"])
  moreover have "RAMBuffer_puts (x # ys) (RAMBuffer_init N) = RAMBuffer_puts [z] ?B"
  proof -
    have "x # ys = (x # zs) @ [z]" using ys by simp
    then show ?thesis using puts_append[of "x # zs" "[z]" "RAMBuffer_init N"] fill by simp
  qed
  ultimately show ?thesis using z by simp
qed

lemma put_times:
  assumes wf: "wf_buffer b"
  shows "access_times (snd (RAMBuffer_put n c t b)) = AList.update n t (access_times b) \<or>
     (\<exists>p ps. access_times b = p # ps \<and>
        access_times (snd (RAMBuffer_put n c t b)) =
          AList.update n t (AList.delete (fst (py_min p ps)) (access_times b)))"
proof (cases "max_size b \<le> int (length (buffer b))")
  case False
  then show ?thesis by (simp add: put_below)
next
  case True
  show ?thesis
  proof (cases "access_times b")
    case Nil
    with True show ?thesis by (simp add: RAMBuffer_put_def RAMBuffer_evict_lru_def)
  next
    case (Cons p ps)
    then show ?thesis using put_full[OF wf True Cons, of n c t] by simp
  qed
qed

lemma protected_put:
  assumes J: "protected Old K b" and n: "n \<notin> Old" and K: "K \<in> Old"
  shows "protected Old K (snd (RAMBuffer_put n c t b))"
proof -
  from J have wf: "wf_buffer b" by (simp add: protected_def)
  have wf': "wf_buffer (snd (RAMBuffer_put n c t b))" by (rule put_ok(2)[OF wf])
  have nK: "n \<noteq> K" using n K by auto
  let ?at' = "access_times (snd (RAMBuffer_put n c t b))"
  have "\<exists>tK. map_of ?at' K = Some tK \<and> t' < tK"
    if k': "k' \<in> Old" "k' \<noteq> K" "map_of ?at' k' = Some t'" for k' t'
  proof -
    have k'n: "k' \<noteq> n" using k' n by auto
    from put_times[OF wf, of n c t] show ?thesis
    proof
      assume eq: "?at' = AList.update n t (access_times b)"
      then have "map_of (access_times b) k' = Some t'"
        using k' k'n by (simp add: update_conv')
      then obtain tK where "map_of (access_times b) K = Some tK" "t' < tK"
        using J k' by (auto simp: protected_def)
      then show ?thesis using eq nK by (simp add: update_conv')
    next
      assume "\<exists>p ps. access_times b = p # ps \<and>
        ?at' = AList.update n t (AList.delete (fst (py_min p ps)) (access_times b))"
      then obtain p ps where ne: "access_times b = p # ps"
        and eq: "?at' = AList.update n t (AList.delete (fst (py_min p ps)) (access_times b))"
        by blast
      let ?v = "fst (py_min p ps)"
      have m: "map_of (AList.delete ?v (access_times b)) k' = Some t'"
        using k' k'n eq by (simp add: update_conv')
      then have k'v: "k' \<noteq> ?v" by (auto simp: delete_conv')
      with m have old: "map_of (access_times b) k' = Some t'" by (simp add: delete_conv')
      then obtain tK where tK: "map_of (access_times b) K = Some tK" "t' < tK"
        using J k' by (auto simp: protected_def)
      have "K \<noteq> ?v"
      proof
        assume Kv: "K = ?v"
        have "py_min p ps \<in> set (access_times b)" using py_min_in[of p ps] ne by simp
        then have "map_of (access_times b) ?v = Some (snd (py_min p ps))"
          using wf_distinct_times[OF wf] by (metis map_of_is_SomeI prod.collapse)
        then have "snd (py_min p ps) = tK" using tK Kv by simp
        moreover have "(k', t') \<in> set (access_times b)" by (rule map_of_SomeD[OF old])
        then have "(k', t') \<in> set (p # ps)" using ne by simp
        then have "snd (py_min p ps) \<le> t'"
          using py_min_le[of "(k', t')" ps p] py_min_le_best[of p ps] by auto
        ultimately show False using tK by simp
      qed
      then show ?thesis using tK eq nK by (simp add: update_conv' delete_conv')
    qed
  qed
  then show ?thesis using wf' unfolding protected_def by blast
qed

lemma protected_puts:
  assumes "protected Old K b" and "fst ` set xs \<inter> Old = {}" and "K \<in> Old"
  shows "fst (RAMBuffer_puts xs b) = Inr () \<and> protected Old K (snd (RAMBuffer_puts xs b))"
  using assms
proof (induction xs arbitrary: b)
  case Nil
  then show ?case by simp
next
  case (Cons x xs)
  obtain k c t where x: "x = (k, c, t)" by (cases x) auto
  have wf: "wf_buffer b" using Cons.prems(1) by (simp add: protected_def)
  have kn: "k \<notin> Old" using Cons.prems(2) x by auto
  obtain b' where put: "RAMBuffer_put k c t b = (Inr (), b')"
    using put_ok(1)[OF wf, of k c t] by (cases "RAMBuffer_put k c t b") auto
  have "protected Old K b'" using protected_put[OF Cons.prems(1) kn Cons.prems(3), of c t] put by simp
  moreover have "fst ` set xs \<inter> Old = {}" using Cons.prems(2) by auto
  ultimately show ?case using Cons.IH[of b'] Cons.prems(3) put x by simp
qed

lemma read_protects:
  assumes wf: "wf_buffer b" and hit: "map_of (buffer b) K = Some c"
    and later: "\<forall>p \<in> set (access_times b). snd p < t0"
    and fresh: "fst ` set xs \<inter> fst ` set (buffer b) = {}"
    and old: "k' \<in> fst ` set (buffer b)"
    and still: "k' \<in> fst ` set (buffer (snd (RAMBuffer_puts xs (snd (RAMBuffer_get K t0 b)))))"
  shows "fst (RAMBuffer_puts xs (snd (RAMBuffer_get K t0 b))) = Inr ()"
    and "K \<in> fst ` set (buffer (snd (RAMBuffer_puts xs (snd (RAMBuffer_get K t0 b)))))"
proof -
  let ?Old = "fst ` set (buffer b)"
  let ?b1 = "snd (RAMBuffer_get K t0 b)"
  have b1: "?b1 = b\<lparr>access_times := AList.update K t0 (access_times b)\<rparr>"
    using hit by (simp add: get_hit)
  have KO: "K \<in> ?Old" using hit by (rule map_of_Some_key)
  have "protected ?Old K ?b1"
    unfolding protected_def
  proof (intro conjI allI impI)
    show "wf_buffer ?b1" by (rule wf_get[OF wf])
  next
    fix k t
    assume a: "k \<in> ?Old \<and> k \<noteq> K \<and> map_of (access_times ?b1) k = Some t"
    then have "map_of (access_times b) k = Some t" using b1 by (auto simp: update_conv')
    then have "(k, t) \<in> set (access_times b)" by (rule map_of_SomeD)
    then have "t < t0" using later by auto
    then show "\<exists>tK. map_of (access_times ?b1) K = Some tK \<and> t < tK"
      using b1 by (simp add: update_conv')
  qed
  from protected_puts[OF this fresh KO]
  have ok: "fst (RAMBuffer_puts xs ?b1) = Inr ()"
    and P: "protected ?Old K (snd (RAMBuffer_puts xs ?b1))" by auto
  show "fst (RAMBuffer_puts xs ?b1) = Inr ()" by (rule ok)
  let ?b2 = "snd (RAMBuffer_puts xs ?b1)"
  show "K \<in> fst ` set (buffer ?b2)"
  proof (cases "k' = K")
    case True
    then show ?thesis using still by simp
  next
    case False
    from P have wf2: "wf_buffer ?b2" by (simp add: protected_def)
    have "k' \<in> fst ` set (access_times ?b2)" using still wf_keys[OF wf2] by simp
    then obtain t' where "map_of (access_times ?b2) k' = Some t'"
      using key_map_of_Some[of k' "access_times ?b2"] by blast
    then obtain tK where "map_of (access_times ?b2) K = Some tK"
      using P old False unfolding protected_def by blast
    then have "K \<in> fst ` set (access_times ?b2)" by (rule map_of_Some_key)
    then show ?thesis using wf_keys[OF wf2] by simp
  qed
qed

lemma digit_val_digit: "d < 10 \<Longrightarrow> digit_val (digit_chars ! d) = Some d"
proof -
  assume "d < 10"
  then have "d \<in> {0,1,2,3,4,5,6,7,8,9}" by auto
  then show ?thesis by (auto simp: digit_val_def digit_chars_def)
qed

lemma read_digits_append:
  "read_digits acc (xs @ ys) =
     (case read_digits acc xs of None \<Rightarrow> None | Some a \<Rightarrow> read_digits a ys)"
  by (induction xs arbitrary: acc) (auto split: option.splits)

lemma read_datetime_str: "read_digits 0 (datetime_str n) = Some n"
proof (induction n rule: datetime_str.induct)
  case (1 n)
  show ?case
  proof (cases "n < 10")
    case True
    then show ?thesis by (simp add: datetime_str.simps[of n] digit_val_digit)
  next
    case False
    have "n mod 10 < 10" by simp
    then have d: "digit_val (digit_chars ! (n mod 10)) = Some (n mod 10)" by (rule digit_val_digit)
    from False 1 have "read_digits 0 (datetime_str (n div 10)) = Some (n div 10)" by simp
    with False d show ?thesis
      by (simp add: datetime_str.simps[of n] read_digits_append)
  qed
qed

lemma datetime_str_nonempty: "datetime_str n \<noteq> []"
  by (simp add: datetime_str.simps[of n])

lemma fromisoformat_str: "fromisoformat (datetime_str t) = Inr t"
  by (simp add: fromisoformat_def datetime_str_nonempty read_datetime_str)

lemma as_str_list_map: "as_str_list (map JStr ts) = Some ts"
  by (induction ts) auto

lemma as_opt_str_json: "as_opt_str (Some (json_opt_str s)) = Some s"
  by (cases s) (auto simp: json_opt_str_def)

lemma from_document_asdict: "from_document (asdict ctx) = Inr ctx"
  by (simp add: from_document_def asdict_def fromisoformat_str context_fields_def
      as_str_list_map as_opt_str_json)

lemma get_context_stored: "env cid = Some (asdict ctx) \<Longrightarrow> get_context cid env = Inr (Some ctx)"
  by (simp add: get_context_def from_document_asdict)

lemma put_lookup:
  assumes "wf_buffer b"
  shows "map_of (buffer (snd (RAMBuffer_put k c t b))) k = Some c"
proof -
  obtain b' where "RAMBuffer_put k c t b = (Inr (), b')"
    using put_ok(1)[OF assms, of k c t] by (cases "RAMBuffer_put k c t b") auto
  then show ?thesis
    by (auto simp: RAMBuffer_put_def update_conv' split: prod.splits sum.splits if_splits)
qed

lemma put_other:
  "map_of (buffer (snd (RAMBuffer_put k c t b))) k' = Some c' \<Longrightarrow> k' \<noteq> k \<Longrightarrow>
   map_of (buffer b) k' = Some c'"
  by (auto simp: RAMBuffer_put_def RAMBuffer_evict_lru_def Let_def update_conv' delete_conv'
      split: prod.splits sum.splits if_splits list.splits option.splits)

lemma mc_id_new_context: "mc_id (new_context cont tgs env e) = new_id env"
  by (simp add: new_context_def)

lemma store_memory_ok:
  assumes wf: "wf_buffer (ram_buffer e)"
    and d: "durable_failure env = None" and i: "index_failure env = None"
  shows "store_memory cont tgs env e =
     (Inr (new_id env),
      e\<lparr>ram_buffer := snd (RAMBuffer_put (new_id env) (new_context cont tgs env e) (clock env) (ram_buffer e)),
        persistent_store := (persistent_store e)(new_id env \<mapsto> asdict (new_context cont tgs env e)),
        vector_store := AList.update (new_id env) (new_context cont tgs env e) (vector_store e)\<rparr>)"
proof -
  let ?ctx = "new_context cont tgs env e"
  have id: "mc_id ?ctx = new_id env" by (simp add: new_context_def)
  obtain b where put: "RAMBuffer_put (new_id env) ?ctx (clock env) (ram_buffer e) = (Inr (), b)"
    using put_ok(1)[OF wf, of "new_id env" ?ctx "clock env"]
    by (cases "RAMBuffer_put (new_id env) ?ctx (clock env) (ram_buffer e)") auto
  show ?thesis
    using put d i id by (simp add: store_memory_def Let_def store_context_def add_context_def)
qed

lemma store_memory_durable_failure:
  assumes wf: "wf_buffer (ram_buffer e)" and d: "durable_failure env = Some msg"
  shows "store_memory cont tgs env e =
     (Inl (LmdbError msg),
      e\<lparr>ram_buffer := snd (RAMBuffer_put (new_id env) (new_context cont tgs env e) (clock env) (ram_buffer e))\<rparr>)"
proof -
  let ?ctx = "new_context cont tgs env e"
  have id: "mc_id ?ctx = new_id env" by (simp add: new_context_def)
  obtain b where put: "RAMBuffer_put (new_id env) ?ctx (clock env) (ram_buffer e) = (Inr (), b)"
    using put_ok(1)[OF wf, of "new_id env" ?ctx "clock env"]
    by (cases "RAMBuffer_put (new_id env) ?ctx (clock env) (ram_buffer e)") auto
  show ?thesis
    using put d id by (simp add: store_memory_def Let_def store_context_def)
qed

lemma store_memory_buffer:
  "ram_buffer (snd (store_memory cont tgs env e)) =
     snd (RAMBuffer_put (new_id env) (new_context cont tgs env e) (clock env) (ram_buffer e))"
  by (simp add: store_memory_def Let_def mc_id_new_context split: prod.splits sum.splits)

lemma store_memory_persistent:
  "persistent_store (snd (store_memory cont tgs env e)) k = persistent_store e k \<or>
   (k = new_id env \<and>
    persistent_store (snd (store_memory cont tgs env e)) k = Some (asdict (new_context cont tgs env e)))"
  by (auto simp: store_memory_def Let_def mc_id_new_context store_context_def
      split: prod.splits sum.splits option.splits if_splits)

lemma retrieve_memory_persistent:
  "persistent_store (snd (retrieve_memory cid now e)) = persistent_store e"
  by (simp add: retrieve_memory_def split: prod.splits sum.splits option.splits)

lemma retrieve_memory_index:
  "vector_store (snd (retrieve_memory cid now e)) = vector_store e"
  by (simp add: retrieve_memory_def split: prod.splits sum.splits option.splits)

lemma retrieve_memory_hit:
  "map_of (buffer (ram_buffer e)) cid = Some c \<Longrightarrow>
   retrieve_memory cid now e =
     (Inr (Some c),
      e\<lparr>ram_buffer := (ram_buffer e)\<lparr>access_times := AList.update cid now (access_times (ram_buffer e))\<rparr>\<rparr>)"
  by (simp add: retrieve_memory_def get_hit)

lemma retrieve_memory_miss:
  "map_of (buffer (ram_buffer e)) cid = None \<Longrightarrow> persistent_store e cid = None \<Longrightarrow>
   retrieve_memory cid now e = (Inr None, e)"
  by (simp add: retrieve_memory_def get_miss get_context_def)

lemma retrieve_memory_promote:
  assumes "wf_buffer (ram_buffer e)" and "map_of (buffer (ram_buffer e)) cid = None"
    and "get_context cid (persistent_store e) = Inr (Some c)"
  shows "retrieve_memory cid now e =
     (Inr (Some c), e\<lparr>ram_buffer := snd (RAMBuffer_put cid c now (ram_buffer e))\<rparr>)"
proof -
  obtain b where put: "RAMBuffer_put cid c now (ram_buffer e) = (Inr (), b)"
    using put_ok(1)[OF assms(1), of cid c now]
    by (cases "RAMBuffer_put cid c now (ram_buffer e)") auto
  show ?thesis using assms(2,3) put by (simp add: retrieve_memory_def get_miss)
qed

lemma retrieve_memory_wf:
  assumes "wf_buffer (ram_buffer e)"
  shows "wf_buffer (ram_buffer (snd (retrieve_memory cid now e)))"
proof (cases "map_of (buffer (ram_buffer e)) cid")
  case (Some c)
  then show ?thesis using wf_get[OF assms, of cid now] by (simp add: retrieve_memory_hit get_hit)
next
  case None
  show ?thesis
  proof (cases "get_context cid (persistent_store e)")
    case (Inl err)
    then show ?thesis using None assms by (simp add: retrieve_memory_def get_miss)
  next
    case (Inr r)
    show ?thesis
    proof (cases r)
      case None
      with Inr \<open>map_of (buffer (ram_buffer e)) cid = None\<close> assms show ?thesis
        by (simp add: retrieve_memory_def get_miss)
    next
      case (Some c)
      with Inr have "get_context cid (persistent_store e) = Inr (Some c)" by simp
      from retrieve_memory_promote[OF assms None this, of now] show ?thesis
        using put_ok(2)[OF assms, of cid c now] by simp
    qed
  qed
qed

lemma keeps_retrieve:
  assumes "keeps cid ctx e"
  shows "fst (retrieve_memory cid now e) = Inr (Some ctx)"
proof (cases "map_of (buffer (ram_buffer e)) cid")
  case (Some c)
  then have "c = ctx" using assms by (simp add: keeps_def)
  with Some show ?thesis by (simp add: retrieve_memory_hit)
next
  case None
  have wf: "wf_buffer (ram_buffer e)" using assms by (simp add: keeps_def)
  have "get_context cid (persistent_store e) = Inr (Some ctx)"
    using assms by (simp add: keeps_def get_context_stored)
  from retrieve_memory_promote[OF wf None this] show ?thesis by simp
qed

lemma keeps_after_retrieve:
  assumes "keeps cid ctx e"
  shows "keeps cid ctx (snd (retrieve_memory k now e))"
proof -
  have wf: "wf_buffer (ram_buffer e)" using assms by (simp add: keeps_def)
  have ps: "persistent_store e cid = Some (asdict ctx)" using assms by (simp add: keeps_def)
  have buf: "c = ctx" if "map_of (buffer (ram_buffer (snd (retrieve_memory k now e)))) cid = Some c" for c
  proof (cases "map_of (buffer (ram_buffer e)) k")
    case (Some c')
    then show ?thesis using that assms by (simp add: retrieve_memory_hit keeps_def)
  next
    case None
    show ?thesis
    proof (cases "get_context k (persistent_store e)")
      case (Inl err)
      then show ?thesis using None that assms by (simp add: retrieve_memory_def get_miss keeps_def)
    next
      case (Inr r)
      show ?thesis
      proof (cases r)
        case None
        with Inr \<open>map_of (buffer (ram_buffer e)) k = None\<close> that assms show ?thesis
          by (simp add: retrieve_memory_def get_miss keeps_def)
      next
        case (Some c')
        with Inr have g: "get_context k (persistent_store e) = Inr (Some c')" by simp
        have eq: "ram_buffer (snd (retrieve_memory k now e)) = snd (RAMBuffer_put k c' now (ram_buffer e))"
          using retrieve_memory_promote[OF wf None g, of now] by simp
        show ?thesis
        proof (cases "k = cid")
          case True
          then have "c' = ctx" using g ps by (simp add: get_context_stored)
          moreover have "c = c'" using that eq True put_lookup[OF wf, of k c' now] by simp
          ultimately show ?thesis by simp
        next
          case False
          then have "map_of (buffer (ram_buffer e)) cid = Some c"
            using that eq put_other[of k c' now "ram_buffer e" cid c] by simp
          then show ?thesis using assms by (simp add: keeps_def)
        qed
      qed
    qed
  qed
  show ?thesis
    unfolding keeps_def
    using retrieve_memory_wf[OF wf, of k now] ps buf
    by (simp add: retrieve_memory_persistent)
qed

lemma keeps_after_store:
  assumes "keeps cid ctx e" and "new_id env \<noteq> cid"
  shows "keeps cid ctx (snd (store_memory cont tgs env e))"
proof -
  have wf: "wf_buffer (ram_buffer e)" using assms by (simp add: keeps_def)
  have ps: "persistent_store e cid = Some (asdict ctx)" using assms by (simp add: keeps_def)
  let ?e' = "snd (store_memory cont tgs env e)"
  have "wf_buffer (ram_buffer ?e')"
    using put_ok(2)[OF wf] by (simp add: store_memory_buffer)
  moreover have "persistent_store ?e' cid = Some (asdict ctx)"
    using store_memory_persistent[of cont tgs env e cid] ps assms(2) by auto
  moreover have "c = ctx" if "map_of (buffer (ram_buffer ?e')) cid = Some c" for c
  proof -
    have "map_of (buffer (ram_buffer e)) cid = Some c"
      using that assms(2) put_other[of "new_id env" _ "clock env" "ram_buffer e" cid c]
      by (simp add: store_memory_buffer)
    then show ?thesis using assms by (simp add: keeps_def)
  qed
  ultimately show ?thesis unfolding keeps_def by blast
qed

lemma keeps_store_new:
  assumes wf: "wf_buffer (ram_buffer e)"
    and ok: "store_memory cont tgs env e = (Inr cid, e')"
  shows "cid = new_id env" and "keeps cid (new_context cont tgs env e) e'"
proof -
  let ?ctx = "new_context cont tgs env e"
  show cid: "cid = new_id env"
    using ok by (auto simp: store_memory_def Let_def mc_id_new_context split: prod.splits sum.splits)
  have e': "e' = snd (store_memory cont tgs env e)" using ok by simp
  have "persistent_store e' cid = Some (asdict ?ctx)"
    using ok cid
    by (auto simp: store_memory_def Let_def mc_id_new_context store_context_def
        split: prod.splits sum.splits option.splits)
  moreover have "wf_buffer (ram_buffer e')"
    unfolding e' using put_ok(2)[OF wf] by (simp add: store_memory_buffer)
  moreover have "map_of (buffer (ram_buffer e')) cid = Some ?ctx"
    unfolding e' cid using put_lookup[OF wf] by (simp add: store_memory_buffer)
  ultimately show "keeps cid ?ctx e'" by (simp add: keeps_def)
qed

lemma keeps_run_ops:
  assumes "keeps cid ctx e" and "\<forall>x \<in> set ops. \<not> stores_id cid x"
  shows "keeps cid ctx (run_ops ops e)"
  using assms
proof (induction ops arbitrary: e)
  case Nil
  then show ?case by simp
next
  case (Cons x ops)
  have "keeps cid ctx (run_op x e)"
  proof (cases x)
    case (Store cont tgs env)
    then show ?thesis using Cons.prems keeps_after_store[of cid ctx e env cont tgs] by simp
  next
    case (Retrieve k now)
    then show ?thesis using Cons.prems keeps_after_retrieve[of cid ctx e k now] by simp
  qed
  then show ?case using Cons by simp
qed

lemma put_full_evicts_oldest:
  assumes N: "1 \<le> max_size b" and wf: "wf_buffer b"
    and full: "max_size b \<le> int (length (buffer b))"
  shows "\<exists>p ps. access_times b = p # ps \<and>
              (\<forall>q \<in> set (access_times b). snd (py_min p ps) \<le> snd q) \<and>
              fst (py_min p ps) \<in> fst ` set (buffer b) \<and>
              length (AList.delete (fst (py_min p ps)) (buffer b)) = length (buffer b) - 1 \<and>
              RAMBuffer_put k c t b =
                (Inr (), b\<lparr>buffer := AList.update k c (AList.delete (fst (py_min p ps)) (buffer b)),
                   access_times := AList.update k t (AList.delete (fst (py_min p ps)) (access_times b))\<rparr>)"
proof -
  have "buffer b \<noteq> []" using full N by auto
  then have "access_times b \<noteq> []" using wf by (auto simp: wf_buffer_def)
  then obtain p ps where ne: "access_times b = p # ps" by (cases "access_times b") auto
  have least: "\<forall>q \<in> set (access_times b). snd (py_min p ps) \<le> snd q"
    using ne py_min_le[of _ ps p] py_min_le_best[of p ps] by auto
  have "py_min p ps \<in> set (access_times b)" using py_min_in[of p ps] ne by simp
  then have vin: "fst (py_min p ps) \<in> fst ` set (buffer b)" using wf_keys[OF wf] by simp
  have one: "length (AList.delete (fst (py_min p ps)) (buffer b)) = length (buffer b) - 1"
    by (rule length_delete_distinct[OF wf_distinct[OF wf] vin])
  show ?thesis
    using ne least vin one put_full[OF wf full ne, of k c t] by blast
qed

text \<open>
  Claim C3, amended. For a buffer whose configured maximum size is at least 1: a \<open>put\<close>
  never makes the buffer larger than the maximum; a \<open>put\<close> into a full buffer removes
  exactly one entry, one whose last-access time is the least (the first such in
  insertion order), and then inserts the new entry; a \<open>get\<close> of a cached key sets that
  key's last-access time to the current reading and changes nothing else; inserting
  \<open>N + 1\<close> distinct keys into an empty buffer of capacity \<open>N\<close>, the first at a time no
  later than the others, leaves exactly the last \<open>N\<close> keys; and after a read of \<open>K\<close> at
  a time later than every recorded access, inserting any number of new keys never evicts
  \<open>K\<close> while a key that was cached at the read and not read since is still cached.
\<close>

theorem RAMBuffer_lru_eviction:
  assumes N: "1 \<le> N" and wf: "wf_buffer b" and cap: "max_size b = N"
  shows "(int (length (buffer b)) \<le> N \<longrightarrow>
           int (length (buffer (snd (RAMBuffer_put k c t b)))) \<le> N) \<and>
         (N \<le> int (length (buffer b)) \<longrightarrow>
           (\<exists>p ps. access_times b = p # ps \<and>
              (\<forall>q \<in> set (access_times b). snd (py_min p ps) \<le> snd q) \<and>
              fst (py_min p ps) \<in> fst ` set (buffer b) \<and>
              length (AList.delete (fst (py_min p ps)) (buffer b)) = length (buffer b) - 1 \<and>
              RAMBuffer_put k c t b =
                (Inr (), b\<lparr>buffer := AList.update k c (AList.delete (fst (py_min p ps)) (buffer b)),
                   access_times := AList.update k t (AList.delete (fst (py_min p ps)) (access_times b))\<rparr>))) \<and>
         (map_of (buffer b) K = Some cK \<longrightarrow>
           RAMBuffer_get K t0 b = (Some cK, b\<lparr>access_times := AList.update K t0 (access_times b)\<rparr>)) \<and>
         (length ys = nat N \<and> distinct (map fst (x # ys)) \<and>
           (\<forall>y \<in> set ys. snd (snd x) \<le> snd (snd y)) \<longrightarrow>
           RAMBuffer_puts (x # ys) (RAMBuffer_init N) =
             (Inr (), \<lparr>max_size = N, buffer = map entry_of ys, access_times = map stamp_of ys\<rparr>)) \<and>
         (map_of (buffer b) K = Some cK \<and> (\<forall>p \<in> set (access_times b). snd p < t0) \<and>
           fst ` set xs \<inter> fst ` set (buffer b) = {} \<and> k' \<in> fst ` set (buffer b) \<and>
           k' \<in> fst ` set (buffer (snd (RAMBuffer_puts xs (snd (RAMBuffer_get K t0 b))))) \<longrightarrow>
           fst (RAMBuffer_puts xs (snd (RAMBuffer_get K t0 b))) = Inr () \<and>
           K \<in> fst ` set (buffer (snd (RAMBuffer_puts xs (snd (RAMBuffer_get K t0 b))))))"
proof (intro conjI)
  have N': "1 \<le> max_size b" using N cap by simp
  show "int (length (buffer b)) \<le> N \<longrightarrow>
           int (length (buffer (snd (RAMBuffer_put k c t b)))) \<le> N"
    using put_bound(1)[OF wf N', of k c t] cap by simp
  show "N \<le> int (length (buffer b)) \<longrightarrow>
           (\<exists>p ps. access_times b = p # ps \<and>
              (\<forall>q \<in> set (access_times b). snd (py_min p ps) \<le> snd q) \<and>
              fst (py_min p ps) \<in> fst ` set (buffer b) \<and>
              length (AList.delete (fst (py_min p ps)) (buffer b)) = length (buffer b) - 1 \<and>
              RAMBuffer_put k c t b =
                (Inr (), b\<lparr>buffer := AList.update k c (AList.delete (fst (py_min p ps)) (buffer b)),
                   access_times := AList.update k t (AList.delete (fst (py_min p ps)) (access_times b))\<rparr>))"
    using put_full_evicts_oldest[OF N' wf, of k c t] cap by simp
  show "map_of (buffer b) K = Some cK \<longrightarrow>
           RAMBuffer_get K t0 b = (Some cK, b\<lparr>access_times := AList.update K t0 (access_times b)\<rparr>)"
    by (simp add: get_hit)
  show "length ys = nat N \<and> distinct (map fst (x # ys)) \<and>
           (\<forall>y \<in> set ys. snd (snd x) \<le> snd (snd y)) \<longrightarrow>
           RAMBuffer_puts (x # ys) (RAMBuffer_init N) =
             (Inr (), \<lparr>max_size = N, buffer = map entry_of ys, access_times = map stamp_of ys\<rparr>)"
    using lru_first_evicted[OF N, of ys x] by blast
  show "map_of (buffer b) K = Some cK \<and> (\<forall>p \<in> set (access_times b). snd p < t0) \<and>
           fst ` set xs \<inter> fst ` set (buffer b) = {} \<and> k' \<in> fst ` set (buffer b) \<and>
           k' \<in> fst ` set (buffer (snd (RAMBuffer_puts xs (snd (RAMBuffer_get K t0 b))))) \<longrightarrow>
           fst (RAMBuffer_puts xs (snd (RAMBuffer_get K t0 b))) = Inr () \<and>
           K \<in> fst ` set (buffer (snd (RAMBuffer_puts xs (snd (RAMBuffer_get K t0 b)))))"
    using read_protects[OF wf, of K cK t0 xs k'] by blast
qed

theorem RAMBuffer_lru_eviction_witness:
  "(1::int) \<le> 3 \<and> wf_buffer sample_buffer \<and> max_size sample_buffer = 3 \<and>
   map fst (buffer (snd (RAMBuffer_put ''d'' (sample ''d'') 4 sample_buffer))) = [''b'', ''c'', ''d''] \<and>
   map fst (access_times (snd (RAMBuffer_get ''a'' 4 sample_buffer))) = [''a'', ''b'', ''c''] \<and>
   map_of (access_times (snd (RAMBuffer_get ''a'' 4 sample_buffer))) ''a'' = Some 4 \<and>
   map fst (buffer (snd (RAMBuffer_puts
      [(''a'', sample ''a'', 1), (''b'', sample ''b'', 2), (''c'', sample ''c'', 3), (''d'', sample ''d'', 4)]
      (RAMBuffer_init 3)))) = [''b'', ''c'', ''d''] \<and>
   map fst (buffer (snd (RAMBuffer_puts [(''d'', sample ''d'', 5)]
      (snd (RAMBuffer_get ''a'' 4 sample_buffer))))) = [''a'', ''c'', ''d'']"
proof -
  have h1: "(1::int) \<le> 3" by simp
  have h2: "wf_buffer sample_buffer" by (simp add: sample_buffer_def wf_buffer_def)
  have h3: "max_size sample_buffer = 3" by (simp add: sample_buffer_def)
  note T = RAMBuffer_lru_eviction[OF h1 h2 h3, of "''d''" "sample ''d''" 4 "''a''" "sample ''a''" 4
      "[(''b'', sample ''b'', 2), (''c'', sample ''c'', 3), (''d'', sample ''d'', 4)]"
      "(''a'', sample ''a'', 1)" "[(''d'', sample ''d'', 5)]" "''c''"]
  show ?thesis
    using h1 h2 h3 T
    by (simp add: sample_buffer_def RAMBuffer_put_def RAMBuffer_evict_lru_def RAMBuffer_get_def
        RAMBuffer_init_def entry_of_def stamp_of_def)
qed

theorem RAMBuffer_capacity_zero_counterexample:
  "max_size (RAMBuffer_init 0) = 0 \<and>
   RAMBuffer_puts [(''a'', sample ''a'', 1)] (RAMBuffer_init 0) =
     (Inr (), \<lparr>max_size = 0, buffer = [(''a'', sample ''a'')], access_times = [(''a'', 1)]\<rparr>) \<and>
   \<not> int (length (buffer (snd (RAMBuffer_put ''a'' (sample ''a'') 1 (RAMBuffer_init 0)))))
       \<le> max_size (RAMBuffer_init 0)"
  by (simp add: RAMBuffer_init_def RAMBuffer_put_def RAMBuffer_evict_lru_def)

text \<open>
  Claim C1, amended. If the durable write inside \<open>store_memory\<close> fails, the error of the
  backend reaches the caller and no id is returned; the durable log and the search index
  are as before; but the cache write, made before the durable write, is not undone: a
  \<open>retrieve_memory\<close> of the generated id returns the record from the cache.
\<close>

theorem store_failure_keeps_cache:
  assumes wf: "wf_buffer (ram_buffer e)" and d: "durable_failure env = Some msg"
  shows "fst (store_memory cont tgs env e) = Inl (LmdbError msg) \<and>
         persistent_store (snd (store_memory cont tgs env e)) = persistent_store e \<and>
         vector_store (snd (store_memory cont tgs env e)) = vector_store e \<and>
         fst (retrieve_memory (new_id env) now (snd (store_memory cont tgs env e))) =
           Inr (Some (new_context cont tgs env e))"
proof -
  let ?ctx = "new_context cont tgs env e"
  let ?b = "snd (RAMBuffer_put (new_id env) ?ctx (clock env) (ram_buffer e))"
  have st: "store_memory cont tgs env e = (Inl (LmdbError msg), e\<lparr>ram_buffer := ?b\<rparr>)"
    by (rule store_memory_durable_failure[OF wf d])
  have "map_of (buffer ?b) (new_id env) = Some ?ctx" by (rule put_lookup[OF wf])
  then have "fst (retrieve_memory (new_id env) now (e\<lparr>ram_buffer := ?b\<rparr>)) = Inr (Some ?ctx)"
    by (simp add: retrieve_memory_hit)
  with st show ?thesis by simp
qed

theorem store_failure_keeps_cache_witness:
  "wf_buffer (ram_buffer sample_engine) \<and>
   durable_failure (sample_env ''id1'' 1 (Some ''MDB_MAP_FULL'')) = Some ''MDB_MAP_FULL'' \<and>
   fst (store_memory sample_content None (sample_env ''id1'' 1 (Some ''MDB_MAP_FULL'')) sample_engine) =
     Inl (LmdbError ''MDB_MAP_FULL'') \<and>
   fst (retrieve_memory ''id1'' 2
      (snd (store_memory sample_content None (sample_env ''id1'' 1 (Some ''MDB_MAP_FULL'')) sample_engine))) =
     Inr (Some (new_context sample_content None (sample_env ''id1'' 1 (Some ''MDB_MAP_FULL'')) sample_engine))"
proof -
  have h1: "wf_buffer (ram_buffer sample_engine)"
    by code_simp
  have h2: "durable_failure (sample_env ''id1'' 1 (Some ''MDB_MAP_FULL'')) = Some ''MDB_MAP_FULL''"
    by (simp add: sample_env_def)
  have h3: "new_id (sample_env ''id1'' 1 (Some ''MDB_MAP_FULL'')) = ''id1''"
    by (simp add: sample_env_def)
  show ?thesis
    using h1 h2 store_failure_keeps_cache[OF h1 h2, of sample_content None 2, unfolded h3] by blast
qed

text \<open>
  Claim C1 as stated fails: after a store whose durable write failed, retrieving the
  generated id does not return absent.
\<close>

theorem store_failure_counterexample:
  "fst (store_memory sample_content None (sample_env ''id1'' 1 (Some ''MDB_MAP_FULL'')) sample_engine) =
     Inl (LmdbError ''MDB_MAP_FULL'') \<and>
   fst (retrieve_memory ''id1'' 2
      (snd (store_memory sample_content None (sample_env ''id1'' 1 (Some ''MDB_MAP_FULL'')) sample_engine)))
     \<noteq> Inr None"
  by code_simp

text \<open>
  Claim C4. When neither backend write fails, \<open>store_memory\<close> returns the generated id,
  and after any further stores (of other ids) and retrievals a \<open>retrieve_memory\<close> of that
  id returns a record whose content is the stored content: from the cache while the
  record is cached, and otherwise from the durable log, after which it is cached again.
\<close>

theorem read_after_write:
  assumes wf: "wf_buffer (ram_buffer e)"
    and d: "durable_failure env = None" and i: "index_failure env = None"
    and others: "\<forall>x \<in> set ops. \<not> stores_id (new_id env) x"
  shows "fst (store_memory cont tgs env e) = Inr (new_id env) \<and>
    (\<exists>ctx. mc_content ctx = cont \<and>
       fst (retrieve_memory (new_id env) now (run_ops ops (snd (store_memory cont tgs env e)))) =
         Inr (Some ctx) \<and>
       (map_of (buffer (ram_buffer (run_ops ops (snd (store_memory cont tgs env e))))) (new_id env) = None \<longrightarrow>
          get_context (new_id env) (persistent_store (run_ops ops (snd (store_memory cont tgs env e)))) =
            Inr (Some ctx) \<and>
          map_of (buffer (ram_buffer (snd (retrieve_memory (new_id env) now
             (run_ops ops (snd (store_memory cont tgs env e))))))) (new_id env) = Some ctx))"
proof -
  let ?ctx = "new_context cont tgs env e"
  let ?e1 = "snd (store_memory cont tgs env e)"
  let ?e2 = "run_ops ops ?e1"
  have st: "store_memory cont tgs env e = (Inr (new_id env), ?e1)"
    using store_memory_ok[OF wf d i, of cont tgs] by simp
  have k1: "keeps (new_id env) ?ctx ?e1" by (rule keeps_store_new(2)[OF wf st])
  have k2: "keeps (new_id env) ?ctx ?e2" by (rule keeps_run_ops[OF k1 others])
  have r: "fst (retrieve_memory (new_id env) now ?e2) = Inr (Some ?ctx)" by (rule keeps_retrieve[OF k2])
  have c: "mc_content ?ctx = cont" by (simp add: new_context_def)
  have ev: "get_context (new_id env) (persistent_store ?e2) = Inr (Some ?ctx) \<and>
      map_of (buffer (ram_buffer (snd (retrieve_memory (new_id env) now ?e2)))) (new_id env) = Some ?ctx"
    if miss: "map_of (buffer (ram_buffer ?e2)) (new_id env) = None"
  proof -
    have wf2: "wf_buffer (ram_buffer ?e2)" using k2 by (simp add: keeps_def)
    have g: "get_context (new_id env) (persistent_store ?e2) = Inr (Some ?ctx)"
      using k2 by (simp add: keeps_def get_context_stored)
    from retrieve_memory_promote[OF wf2 miss g, of now] put_lookup[OF wf2, of "new_id env" ?ctx now] g
    show ?thesis by simp
  qed
  have f: "fst (store_memory cont tgs env e) = Inr (new_id env)"
    by (simp add: store_memory_ok[OF wf d i])
  from f r c ev show ?thesis
    by (intro conjI exI[where x = "new_context cont tgs env e"] impI) auto
qed

theorem read_after_write_witness:
  "fst (store_memory sample_content (Some [''x'']) (sample_env ''id1'' 1 None) sample_engine) = Inr ''id1'' \<and>
   map fst (buffer (ram_buffer (run_ops sample_stores
      (snd (store_memory sample_content (Some [''x'']) (sample_env ''id1'' 1 None) sample_engine))))) =
     [''id6'', ''id7''] \<and>
   map_option mc_content (projr (fst (retrieve_memory ''id1'' 9 (run_ops sample_stores
      (snd (store_memory sample_content (Some [''x'']) (sample_env ''id1'' 1 None) sample_engine)))))) =
     Some sample_content \<and>
   map fst (buffer (ram_buffer (snd (retrieve_memory ''id1'' 9 (run_ops sample_stores
      (snd (store_memory sample_content (Some [''x'']) (sample_env ''id1'' 1 None) sample_engine))))))) =
     [''id7'', ''id1'']"
proof -
  have h1: "wf_buffer (ram_buffer sample_engine)"
    by code_simp
  have h2: "durable_failure (sample_env ''id1'' 1 None) = None"
    and h3: "index_failure (sample_env ''id1'' 1 None) = None"
    by (simp_all add: sample_env_def)
  have h4: "\<forall>x \<in> set sample_stores. \<not> stores_id (new_id (sample_env ''id1'' 1 None)) x"
    by code_simp
  note T = read_after_write[OF h1 h2 h3 h4, of sample_content "Some [''x'']" 9]
  have a: "fst (store_memory sample_content (Some [''x'']) (sample_env ''id1'' 1 None) sample_engine) = Inr ''id1''"
    using T[THEN conjunct1] by (simp add: sample_env_def)
  have b: "map fst (buffer (ram_buffer (run_ops sample_stores
      (snd (store_memory sample_content (Some [''x'']) (sample_env ''id1'' 1 None) sample_engine))))) =
     [''id6'', ''id7'']"
    by code_simp
  have c: "map_option mc_content (projr (fst (retrieve_memory ''id1'' 9 (run_ops sample_stores
      (snd (store_memory sample_content (Some [''x'']) (sample_env ''id1'' 1 None) sample_engine)))))) =
     Some sample_content"
    by code_simp
  have d: "map fst (buffer (ram_buffer (snd (retrieve_memory ''id1'' 9 (run_ops sample_stores
      (snd (store_memory sample_content (Some [''x'']) (sample_env ''id1'' 1 None) sample_engine))))))) =
     [''id7'', ''id1'']"
    by code_simp
  show ?thesis by (intro conjI a b c d)
qed

lemma put_same:
  "map_of (buffer (snd (RAMBuffer_put k c t b))) k = Some c' \<Longrightarrow>
   c' = c \<or> map_of (buffer b) k = Some c'"
  by (auto simp: RAMBuffer_put_def RAMBuffer_evict_lru_def Let_def update_conv' delete_conv'
      split: prod.splits sum.splits if_splits list.splits option.splits)

lemma retrieve_memory_buffer:
  "ram_buffer (snd (retrieve_memory cid now e)) =
     (case map_of (buffer (ram_buffer e)) cid of
        Some c \<Rightarrow> (ram_buffer e)\<lparr>access_times := AList.update cid now (access_times (ram_buffer e))\<rparr>
      | None \<Rightarrow>
          (case get_context cid (persistent_store e) of
             Inr (Some c) \<Rightarrow> snd (RAMBuffer_put cid c now (ram_buffer e))
           | _ \<Rightarrow> ram_buffer e))"
  by (simp add: retrieve_memory_def RAMBuffer_get_def split: option.splits sum.splits prod.splits)

lemma retrieve_memory_records:
  assumes "map_of (buffer (ram_buffer (snd (retrieve_memory cid now e)))) k = Some c"
  shows "map_of (buffer (ram_buffer e)) k = Some c \<or>
     (k = cid \<and> get_context cid (persistent_store e) = Inr (Some c))"
proof (cases "map_of (buffer (ram_buffer e)) cid")
  case (Some c')
  then show ?thesis using assms by (simp add: retrieve_memory_buffer)
next
  case None
  show ?thesis
  proof (cases "get_context cid (persistent_store e)")
    case (Inl err)
    then show ?thesis using None assms by (simp add: retrieve_memory_buffer)
  next
    case (Inr r)
    show ?thesis
    proof (cases r)
      case None
      with Inr \<open>map_of (buffer (ram_buffer e)) cid = None\<close> assms show ?thesis
        by (simp add: retrieve_memory_buffer)
    next
      case (Some c')
      with Inr None assms
      have m: "map_of (buffer (snd (RAMBuffer_put cid c' now (ram_buffer e)))) k = Some c"
        by (simp add: retrieve_memory_buffer)
      show ?thesis
      proof (cases "k = cid")
        case True
        with m put_same[of cid c' now "ram_buffer e" c] None have "c = c'" by auto
        with True Inr Some show ?thesis by simp
      next
        case False
        with m put_other[of cid c' now "ram_buffer e" k c] show ?thesis by simp
      qed
    qed
  qed
qed

lemma put_length_fresh:
  assumes wf: "wf_buffer b" and fresh: "map_of (buffer b) k = None"
  shows "length (buffer b) \<le> length (buffer (snd (RAMBuffer_put k c t b)))"
proof -
  have kb: "k \<notin> fst ` set (buffer b)" using fresh by (simp add: map_of_eq_None_iff)
  show ?thesis
  proof (cases "max_size b \<le> int (length (buffer b))")
    case False
    then show ?thesis using kb by (simp add: put_below update_fresh)
  next
    case True
    show ?thesis
    proof (cases "access_times b")
      case Nil
      then have "buffer b = []" using wf by (auto simp: wf_buffer_def)
      then show ?thesis by simp
    next
      case (Cons p ps)
      let ?v = "fst (py_min p ps)"
      have "py_min p ps \<in> set (access_times b)" using py_min_in[of p ps] Cons by simp
      then have vin: "?v \<in> fst ` set (buffer b)" using wf_keys[OF wf] by simp
      have one: "length (AList.delete ?v (buffer b)) = length (buffer b) - 1"
        by (rule length_delete_distinct[OF wf_distinct[OF wf] vin])
      have "k \<notin> fst ` set (AList.delete ?v (buffer b))"
        using kb dom_delete_subset[of ?v "buffer b"] by auto
      then have "AList.update k c (AList.delete ?v (buffer b)) = AList.delete ?v (buffer b) @ [(k, c)]"
        by (rule update_fresh)
      then show ?thesis using one by (simp add: put_full[OF wf True Cons])
    qed
  qed
qed

text \<open>
  Claim C10. \<open>retrieve_memory\<close> leaves the durable log, the search index, the session id
  and the workspace path as they were, and every record cached afterwards was cached
  before or is the record read from the durable log under the requested id. On a cache
  hit only the access time of the requested key is set; on a durable hit the record is
  put into the cache, which loses at most one other entry; when the id is in neither
  tier nothing changes.
\<close>

theorem retrieve_frame:
  "persistent_store (snd (retrieve_memory cid now e)) = persistent_store e \<and>
   vector_store (snd (retrieve_memory cid now e)) = vector_store e \<and>
   session_id (snd (retrieve_memory cid now e)) = session_id e \<and>
   workspace_path (snd (retrieve_memory cid now e)) = workspace_path e \<and>
   (\<forall>k c. map_of (buffer (ram_buffer (snd (retrieve_memory cid now e)))) k = Some c \<longrightarrow>
      map_of (buffer (ram_buffer e)) k = Some c \<or>
      (k = cid \<and> get_context cid (persistent_store e) = Inr (Some c))) \<and>
   (\<forall>c. map_of (buffer (ram_buffer e)) cid = Some c \<longrightarrow>
      retrieve_memory cid now e =
        (Inr (Some c),
         e\<lparr>ram_buffer := (ram_buffer e)\<lparr>access_times := AList.update cid now (access_times (ram_buffer e))\<rparr>\<rparr>)) \<and>
   (\<forall>c. wf_buffer (ram_buffer e) \<and> map_of (buffer (ram_buffer e)) cid = None \<and>
        get_context cid (persistent_store e) = Inr (Some c) \<longrightarrow>
      retrieve_memory cid now e =
        (Inr (Some c), e\<lparr>ram_buffer := snd (RAMBuffer_put cid c now (ram_buffer e))\<rparr>) \<and>
      length (buffer (ram_buffer e)) \<le> length (buffer (ram_buffer (snd (retrieve_memory cid now e))))) \<and>
   (map_of (buffer (ram_buffer e)) cid = None \<and> persistent_store e cid = None \<longrightarrow>
      retrieve_memory cid now e = (Inr None, e))"
proof -
  have 1: "persistent_store (snd (retrieve_memory cid now e)) = persistent_store e"
    by (rule retrieve_memory_persistent)
  have 2: "vector_store (snd (retrieve_memory cid now e)) = vector_store e"
    by (rule retrieve_memory_index)
  have 3: "session_id (snd (retrieve_memory cid now e)) = session_id e"
    by (simp add: retrieve_memory_def split: prod.splits sum.splits option.splits)
  have 4: "workspace_path (snd (retrieve_memory cid now e)) = workspace_path e"
    by (simp add: retrieve_memory_def split: prod.splits sum.splits option.splits)
  have 5: "\<forall>k c. map_of (buffer (ram_buffer (snd (retrieve_memory cid now e)))) k = Some c \<longrightarrow>
      map_of (buffer (ram_buffer e)) k = Some c \<or>
      (k = cid \<and> get_context cid (persistent_store e) = Inr (Some c))"
    using retrieve_memory_records by blast
  have 6: "\<forall>c. map_of (buffer (ram_buffer e)) cid = Some c \<longrightarrow>
      retrieve_memory cid now e =
        (Inr (Some c),
         e\<lparr>ram_buffer := (ram_buffer e)\<lparr>access_times := AList.update cid now (access_times (ram_buffer e))\<rparr>\<rparr>)"
    by (simp add: retrieve_memory_hit)
  have 7: "\<forall>c. wf_buffer (ram_buffer e) \<and> map_of (buffer (ram_buffer e)) cid = None \<and>
        get_context cid (persistent_store e) = Inr (Some c) \<longrightarrow>
      retrieve_memory cid now e =
        (Inr (Some c), e\<lparr>ram_buffer := snd (RAMBuffer_put cid c now (ram_buffer e))\<rparr>) \<and>
      length (buffer (ram_buffer e)) \<le> length (buffer (ram_buffer (snd (retrieve_memory cid now e))))"
  proof (intro allI impI)
    fix c
    assume a: "wf_buffer (ram_buffer e) \<and> map_of (buffer (ram_buffer e)) cid = None \<and>
        get_context cid (persistent_store e) = Inr (Some c)"
    then have p: "retrieve_memory cid now e =
        (Inr (Some c), e\<lparr>ram_buffer := snd (RAMBuffer_put cid c now (ram_buffer e))\<rparr>)"
      using retrieve_memory_promote[of e cid c now] by blast
    moreover have "length (buffer (ram_buffer e)) \<le> length (buffer (snd (RAMBuffer_put cid c now (ram_buffer e))))"
      using a put_length_fresh[of "ram_buffer e" cid c now] by blast
    ultimately show "retrieve_memory cid now e =
        (Inr (Some c), e\<lparr>ram_buffer := snd (RAMBuffer_put cid c now (ram_buffer e))\<rparr>) \<and>
      length (buffer (ram_buffer e)) \<le> length (buffer (ram_buffer (snd (retrieve_memory cid now e))))"
      by simp
  qed
  have 8: "map_of (buffer (ram_buffer e)) cid = None \<and> persistent_store e cid = None \<longrightarrow>
      retrieve_memory cid now e = (Inr None, e)"
    by (simp add: retrieve_memory_miss)
  from 1 2 3 4 5 6 7 8 show ?thesis by (intro conjI)
qed


theorem retrieve_frame_witness:
  "fst (retrieve_memory ''id7'' 9 (run_ops sample_stores sample_engine)) =
     Inr (Some (new_context [(''n'', JInt 7)] None (sample_env ''id7'' 7 None) sample_engine)) \<and>
   access_times (ram_buffer (snd (retrieve_memory ''id7'' 9 (run_ops sample_stores sample_engine)))) =
     [(''id6'', 6), (''id7'', 9)] \<and>
   map fst (buffer (ram_buffer (snd (retrieve_memory ''id2'' 9 (run_ops sample_stores sample_engine))))) =
     [''id7'', ''id2''] \<and>
   retrieve_memory ''none'' 9 (run_ops sample_stores sample_engine) =
     (Inr None, run_ops sample_stores sample_engine) \<and>
   persistent_store (snd (retrieve_memory ''id2'' 9 (run_ops sample_stores sample_engine))) =
     persistent_store (run_ops sample_stores sample_engine)"
proof -
  let ?e = "run_ops sample_stores sample_engine"
  let ?c7 = "new_context [(''n'', JInt 7)] None (sample_env ''id7'' 7 None) sample_engine"
  have hit: "map_of (buffer (ram_buffer ?e)) ''id7'' = Some ?c7" by code_simp
  have at: "AList.update ''id7'' 9 (access_times (ram_buffer ?e)) = [(''id6'', 6), (''id7'', 9)]"
    by code_simp
  have miss: "map_of (buffer (ram_buffer ?e)) ''none'' = None \<and> persistent_store ?e ''none'' = None"
    by code_simp
  have a: "retrieve_memory ''id7'' 9 ?e =
      (Inr (Some ?c7),
       ?e\<lparr>ram_buffer := (ram_buffer ?e)\<lparr>access_times := AList.update ''id7'' 9 (access_times (ram_buffer ?e))\<rparr>\<rparr>)"
    using retrieve_frame[of "''id7''" 9 ?e] hit by blast
  have b: "map fst (buffer (ram_buffer (snd (retrieve_memory ''id2'' 9 ?e)))) = [''id7'', ''id2'']"
    by code_simp
  have c: "retrieve_memory ''none'' 9 ?e = (Inr None, ?e)"
    using retrieve_frame[of "''none''" 9 ?e] miss by blast
  have d: "persistent_store (snd (retrieve_memory ''id2'' 9 ?e)) = persistent_store ?e"
    using retrieve_frame[of "''id2''" 9 ?e] by blast
  show ?thesis using a at c d b by simp
qed

lemma tag_mismatch_shared:
  "ts \<noteq> [] \<Longrightarrow> \<not> tag_mismatch (Some ts) m \<Longrightarrow> \<exists>tag \<in> set ts. tag \<in> set (mc_tags m)"
  by (auto simp: tag_mismatch_def list_ex_iff)

lemma search_loop_tags:
  assumes "search_loop cands clk i tgs limit ms e = (Inr out, e')"
    and "\<forall>m \<in> set ms. \<not> tag_mismatch tgs m"
  shows "\<forall>m \<in> set out. \<not> tag_mismatch tgs m"
  using assms
proof (induction cands arbitrary: i ms e)
  case Nil
  then show ?case by simp
next
  case (Cons cand rest)
  note prems2 = Cons.prems
  obtain context_id score where cand: "cand = (context_id, score)" by (cases cand) auto
    obtain r e1 where ret: "retrieve_memory context_id (clk i) e = (r, e1)"
    by (cases "retrieve_memory context_id (clk i) e") auto
  show ?case
  proof (cases r)
    case (Inl err)
    with ret cand prems2 show ?thesis by simp
  next
    case (Inr found)
    show ?thesis
    proof (cases found)
      case None
      with Inr ret cand prems2 Cons.IH[of "Suc i" ms e1] show ?thesis by simp
    next
      case (Some found_ctx)
      show ?thesis
      proof (cases "tag_mismatch tgs found_ctx")
        case True
        with Some Inr ret cand prems2 Cons.IH[of "Suc i" ms e1] show ?thesis by simp
      next
        case False
        show ?thesis
        proof (cases "limit \<le> int (length (ms @ [found_ctx]))")
          case True
          with False Some Inr ret cand prems2 show ?thesis by auto
        next
          case stop: False
          have "\<forall>m \<in> set (ms @ [found_ctx]). \<not> tag_mismatch tgs m"
            using False prems2(2) by auto
          with stop False Some Inr ret cand prems2(1)
            Cons.IH[of "Suc i" "ms @ [found_ctx]" e1] show ?thesis by simp
        qed
      qed
    qed
  qed
qed

lemma search_loop_take:
  assumes "search_loop cands clk i tgs limit ms e = (Inr out, e')"
    and "int (length ms) < max 1 limit"
  shows "out = take (nat (max 1 limit))
           (ms @ filter (\<lambda>c. \<not> tag_mismatch tgs c) (retrieved cands clk i e))"
  using assms
proof (induction cands arbitrary: i ms e)
  case Nil
  then show ?case by simp
next
  case (Cons cand rest)
  note prems2 = Cons.prems
  obtain context_id score where cand: "cand = (context_id, score)" by (cases cand) auto
    obtain r e1 where ret: "retrieve_memory context_id (clk i) e = (r, e1)"
    by (cases "retrieve_memory context_id (clk i) e") auto
  show ?case
  proof (cases r)
    case (Inl err)
    with ret cand prems2 show ?thesis by simp
  next
    case (Inr found)
    show ?thesis
    proof (cases found)
      case None
      with Inr ret cand prems2 Cons.IH[of "Suc i" ms e1] show ?thesis by simp
    next
      case (Some found_ctx)
      show ?thesis
      proof (cases "tag_mismatch tgs found_ctx")
        case True
        with Some Inr ret cand prems2 Cons.IH[of "Suc i" ms e1] show ?thesis by simp
      next
        case False
        show ?thesis
        proof (cases "limit \<le> int (length (ms @ [found_ctx]))")
          case True
          then have out: "out = ms @ [found_ctx]"
            using False Some Inr ret cand prems2(1) by simp
          have "nat (max 1 limit) = Suc (length ms)"
            using True prems2(2) by auto
          then show ?thesis using out False Some Inr ret cand by simp
        next
          case stop: False
          then have "int (length (ms @ [found_ctx])) < max 1 limit" by auto
          with stop False Some Inr ret cand prems2(1)
            Cons.IH[of "Suc i" "ms @ [found_ctx]" e1] show ?thesis by simp
        qed
      qed
    qed
  qed
qed

text \<open>
  Claim C5. A search that returns asked the index for \<open>2 * limit\<close> candidates and
  returns, in the order of the index, the first \<open>limit\<close> records (one record when
  \<open>limit\<close> is below 1) among those that retrieving the candidates one after the other
  yields and that pass the tag filter. With a non-empty \<open>tags\<close> argument every
  returned record has a tag in common with it, and for \<open>limit\<close> of at least 1 no more
  than \<open>limit\<close> records are returned.
\<close>

theorem search_filters_by_tag:
  assumes "search_memories backend query tgs limit clk e = (Inr out, e')"
  shows "(\<exists>similar_ids. backend (vector_store e) query (2 * limit) = Inr similar_ids \<and>
            out = take (nat (max 1 limit))
                    (filter (\<lambda>c. \<not> tag_mismatch tgs c) (retrieved similar_ids clk 0 e))) \<and>
         (\<forall>ts. tgs = Some ts \<and> ts \<noteq> [] \<longrightarrow>
            (\<forall>m \<in> set out. \<exists>tag \<in> set ts. tag \<in> set (mc_tags m))) \<and>
         (1 \<le> limit \<longrightarrow> int (length out) \<le> limit)"
proof -
  obtain similar_ids where b: "backend (vector_store e) query (limit * 2) = Inr similar_ids"
    and l: "search_loop similar_ids clk 0 tgs limit [] e = (Inr out, e')"
    using assms by (auto simp: search_memories_def split: sum.splits)
  have t: "out = take (nat (max 1 limit))
      ([] @ filter (\<lambda>c. \<not> tag_mismatch tgs c) (retrieved similar_ids clk 0 e))"
    by (rule search_loop_take[OF l]) simp
  have g: "\<forall>m \<in> set out. \<not> tag_mismatch tgs m"
    by (rule search_loop_tags[OF l]) simp
  have 1: "\<exists>similar_ids. backend (vector_store e) query (2 * limit) = Inr similar_ids \<and>
            out = take (nat (max 1 limit))
                    (filter (\<lambda>c. \<not> tag_mismatch tgs c) (retrieved similar_ids clk 0 e))"
    using b t by (auto simp: mult.commute)
  have 2: "\<forall>ts. tgs = Some ts \<and> ts \<noteq> [] \<longrightarrow>
            (\<forall>m \<in> set out. \<exists>tag \<in> set ts. tag \<in> set (mc_tags m))"
    using g tag_mismatch_shared by blast
  have 3: "1 \<le> limit \<longrightarrow> int (length out) \<le> limit"
    using t by auto
  from 1 2 3 show ?thesis by blast
qed

theorem search_filters_by_tag_witness:
  "map mc_id (projr (fst (search_memories sample_backend ''n'' (Some [''task'']) 1
      (\<lambda>i. 10 + real i) (run_ops search_stores sample_engine)))) = [''t1''] \<and>
   map mc_tags (projr (fst (search_memories sample_backend ''n'' (Some [''task'']) 1
      (\<lambda>i. 10 + real i) (run_ops search_stores sample_engine)))) = [[''task'', ''pending'']] \<and>
   sample_backend (vector_store (run_ops search_stores sample_engine)) ''n'' (2 * 1) =
     Inr [(''n1'', 1), (''t1'', 1)]"
proof -
  let ?X = "search_memories sample_backend ''n'' (Some [''task'']) 1
      (\<lambda>i. 10 + real i) (run_ops search_stores sample_engine)"
  let ?c = "new_context [(''n'', JInt 2)] (Some [''task'', ''pending'']) (sample_env ''t1'' 2 None)
      sample_engine"
  have f: "fst ?X = Inr [?c]" by code_simp
  then have h: "?X = (Inr [?c], snd ?X)" by (metis prod.collapse)
  note T = search_filters_by_tag[OF h]
  have a: "map mc_id (projr (fst ?X)) = [''t1'']" by code_simp
  have b: "\<forall>m \<in> set [?c]. \<exists>tag \<in> set [''task'']. tag \<in> set (mc_tags m)"
    using T by blast
  have c: "map mc_tags (projr (fst ?X)) = [[''task'', ''pending'']]"
    using b f by (simp add: new_context_def)
  have d: "sample_backend (vector_store (run_ops search_stores sample_engine)) ''n'' (2 * 1) =
     Inr [(''n1'', 1), (''t1'', 1)]" by code_simp
  show ?thesis by (intro conjI a c d)
qed

lemma get_next_task_frame:
  "running (snd (get_next_task tq)) = running tq \<and>
   max_concurrent (snd (get_next_task tq)) = max_concurrent tq"
  by (simp add: get_next_task_def split: prod.splits sum.splits)

lemma add_task_frame:
  "running (snd (add_task task tq)) = running tq \<and>
   max_concurrent (snd (add_task task tq)) = max_concurrent tq"
  by (simp add: add_task_def split: prod.splits)

lemma add_running_task_count:
  "running_count (add_running_task k t tq) \<le> running_count tq + 1 \<and>
   max_concurrent (add_running_task k t tq) = max_concurrent tq"
  using length_update_le[of k t "running tq"]
  by (simp add: add_running_task_def running_count_def)

lemma add_result_count:
  "running_count (add_result r tq) \<le> running_count tq \<and>
   max_concurrent (add_result r tq) = max_concurrent tq"
  using length_delete_le[of "r_task_id r" "running tq"]
  by (simp add: add_result_def running_count_def Let_def)

lemma handle_task_completion_count:
  "running_count (handle_task_completion k outcome tq) \<le> running_count tq \<and>
   max_concurrent (handle_task_completion k outcome tq) = max_concurrent tq"
  by (simp add: handle_task_completion_def add_result_count split: sum.splits)

lemma within_cap_step:
  assumes "executor_step s s'" and "within_cap n s"
  shows "within_cap n s'"
  using assms
proof (induction rule: executor_step.induct)
  case (at_capacity tq)
  then show ?case by (simp add: within_cap_def)
next
  case (below_capacity tq)
  then show ?case by (simp add: within_cap_def)
next
  case (no_task tq tq')
  then show ?case using get_next_task_frame[of tq]
    by (simp add: within_cap_def running_count_def)
next
  case (start_task tq task tq')
  then show ?case
    using get_next_task_frame[of tq] add_running_task_count[of "t_id task" task tq']
    by (simp add: within_cap_def running_count_def)
next
  case (executor_error tq err tq')
  then show ?case using get_next_task_frame[of tq]
    by (simp add: within_cap_def running_count_def)
next
  case (submitted task tq r tq' pc)
  then show ?case using add_task_frame[of task tq]
    by (simp add: within_cap_def running_count_def)
next
  case (completed pc tq task_id outcome)
  then show ?case using handle_task_completion_count[of task_id outcome tq]
    by (auto simp: within_cap_def)
qed

lemma reachable_within_cap: "reachable n s \<Longrightarrow> 0 \<le> n \<Longrightarrow> within_cap n s"
proof (induction rule: reachable.induct)
  case (start n)
  then show ?case by (simp add: within_cap_def TaskQueue_init_def running_count_def)
next
  case (step n s s')
  then show ?case using within_cap_step by blast
qed

text \<open>
  Claim C7. In every state that the executor loop, the submissions and the completion
  handlers can reach from the queue as it is constructed, with a cap that is not
  negative, the number of running tasks is at most \<open>max_concurrent\<close>, and
  \<open>max_concurrent\<close> is the configured value.
\<close>

theorem concurrency_cap:
  assumes "0 \<le> n" and "reachable n s"
  shows "max_concurrent (snd s) = n \<and> running_count (snd s) \<le> max_concurrent (snd s)"
  using reachable_within_cap[OF assms(2,1)] by (simp add: within_cap_def)


theorem concurrency_cap_witness:
  "(0::int) \<le> 3 \<and>
   running (add_running_task (t_id sample_task) sample_task (TaskQueue_init 3)) =
     [(''task-1'', sample_task)] \<and>
   running_count (add_running_task (t_id sample_task) sample_task (TaskQueue_init 3)) \<le> 3"
proof -
  have h: "(0::int) \<le> 3" by simp
  have r0: "reachable 3 (AtCheck, TaskQueue_init 3)" by (rule reachable.start)
  have r1: "reachable 3 (AtCheck, snd (add_task sample_task (TaskQueue_init 3)))"
    by (rule reachable.step[OF r0 executor_step.submitted[of sample_task "TaskQueue_init 3"
        "fst (add_task sample_task (TaskQueue_init 3))"]]) simp
  have r2: "reachable 3 (AtGet, snd (add_task sample_task (TaskQueue_init 3)))"
    by (rule reachable.step[OF r1 executor_step.below_capacity]) code_simp
  have g: "get_next_task (snd (add_task sample_task (TaskQueue_init 3))) =
      (Inr (Some sample_task), TaskQueue_init 3)" by code_simp
  have r3: "reachable 3 (AtCheck, add_running_task (t_id sample_task) sample_task (TaskQueue_init 3))"
    by (rule reachable.step[OF r2 executor_step.start_task[OF g]])
  have a: "running (add_running_task (t_id sample_task) sample_task (TaskQueue_init 3)) =
     [(''task-1'', sample_task)]" by code_simp
  show ?thesis using h a concurrency_cap[OF h r3] by simp
qed

lemma on_exception_result:
  assumes "on_exception task env err contexts s = (Inr r, s')"
  shows "r_status r = FAILED \<and> r_error r = Some (str_error err) \<and> r_output r = None"
  using assms by (auto simp: on_exception_def split: prod.splits sum.splits)

lemma try_block_result:
  assumes "try_block plugins task env s = (Inr r, contexts, s')"
  shows "r_status r = COMPLETED \<and> r_error r = None"
  using assms by (auto simp: try_block_def split: prod.splits sum.splits)

lemma add_result_results:
  "map_of (results (add_result r tq)) k = (if k = r_task_id r then Some r else map_of (results tq) k)"
  by (simp add: add_result_def Let_def update_conv')

text \<open>
  Claim C9. A result returned by \<open>execute_task_chain\<close> is either completed with no
  error, when the \<open>try\<close> block returns, or failed with the message of the exception that
  left the \<open>try\<close> block; the result that \<open>_handle_task_completion\<close> builds when the chain
  itself raised is failed with that exception's message; so the error is present exactly
  when the status is failed, in what the chain returns and in every recorded result.
\<close>

theorem result_error_iff_failed:
  "(fst (execute_task_chain plugins task env s) = Inr r \<longrightarrow>
      error_iff_failed r \<and>
      (\<forall>r' cs s'. try_block plugins task env s = (Inr r', cs, s') \<longrightarrow>
         r = r' \<and> r_status r = COMPLETED \<and> r_error r = None) \<and>
      (\<forall>err cs s'. try_block plugins task env s = (Inl err, cs, s') \<longrightarrow>
         r_status r = FAILED \<and> r_error r = Some (str_error err))) \<and>
   (map_of (results (handle_task_completion task_id (Inl err) tq)) task_id =
      Some \<lparr>r_task_id = task_id, r_status = FAILED, r_output = None,
            r_error = Some (str_error err), r_execution_time = 0, r_memory_contexts = None\<rparr>) \<and>
   ((\<forall>k r'. map_of (results tq) k = Some r' \<longrightarrow> error_iff_failed r') \<longrightarrow>
    (\<forall>k r'. map_of (results (handle_task_completion task_id
                 (fst (execute_task_chain plugins task env s)) tq)) k = Some r' \<longrightarrow>
       error_iff_failed r'))"
proof (intro conjI impI)
  assume ret: "fst (execute_task_chain plugins task env s) = Inr r"
  obtain out cs s1 where tb: "try_block plugins task env s = (out, cs, s1)"
    by (cases "try_block plugins task env s") auto
  show c: "\<forall>r' cs s'. try_block plugins task env s = (Inr r', cs, s') \<longrightarrow>
         r = r' \<and> r_status r = COMPLETED \<and> r_error r = None"
    using ret try_block_result[of plugins task env s]
    by (auto simp: execute_task_chain_def)
  show f: "\<forall>err cs s'. try_block plugins task env s = (Inl err, cs, s') \<longrightarrow>
         r_status r = FAILED \<and> r_error r = Some (str_error err)"
  proof (intro allI impI)
    fix err cs s'
    assume "try_block plugins task env s = (Inl err, cs, s')"
    then have "fst (on_exception task env err cs s') = Inr r"
      using ret by (simp add: execute_task_chain_def)
    then have "on_exception task env err cs s' = (Inr r, snd (on_exception task env err cs s'))"
      by (metis prod.collapse)
    then show "r_status r = FAILED \<and> r_error r = Some (str_error err)"
      using on_exception_result by blast
  qed
  show "error_iff_failed r"
  proof (cases out)
    case (Inl err)
    with tb f show ?thesis by (simp add: error_iff_failed_def)
  next
    case (Inr r')
    with tb c show ?thesis by (auto simp: error_iff_failed_def)
  qed
next
  show "map_of (results (handle_task_completion task_id (Inl err) tq)) task_id =
      Some \<lparr>r_task_id = task_id, r_status = FAILED, r_output = None,
            r_error = Some (str_error err), r_execution_time = 0, r_memory_contexts = None\<rparr>"
    by (simp add: handle_task_completion_def add_result_results)
next
  assume old: "\<forall>k r'. map_of (results tq) k = Some r' \<longrightarrow> error_iff_failed r'"
  show "\<forall>k r'. map_of (results (handle_task_completion task_id
                 (fst (execute_task_chain plugins task env s)) tq)) k = Some r' \<longrightarrow>
       error_iff_failed r'"
  proof (cases "fst (execute_task_chain plugins task env s)")
    case (Inl e)
    then show ?thesis using old
      by (auto simp: handle_task_completion_def add_result_results error_iff_failed_def
          split: if_splits)
  next
    case (Inr r0)
    obtain out cs s1 where tb: "try_block plugins task env s = (out, cs, s1)"
      by (cases "try_block plugins task env s") auto
    have "error_iff_failed r0"
    proof (cases out)
      case (Inl err)
      with tb Inr have "fst (on_exception task env err cs s1) = Inr r0"
        by (simp add: execute_task_chain_def)
      then have "on_exception task env err cs s1 = (Inr r0, snd (on_exception task env err cs s1))"
        by (metis prod.collapse)
      then show ?thesis using on_exception_result[of task env err cs s1 r0]
        by (simp add: error_iff_failed_def)
    next
      case (Inr r')
      with tb \<open>fst (execute_task_chain plugins task env s) = Inr r0\<close>
      show ?thesis using try_block_result[of plugins task env s r' cs s1]
        by (simp add: execute_task_chain_def error_iff_failed_def)
    qed
    with Inr old show ?thesis
      by (auto simp: handle_task_completion_def add_result_results split: if_splits)
  qed
qed

text \<open>
  Claim C6 at a failing input. Task \<open>a\<close> has priority 5; tasks \<open>b\<close> and \<open>c\<close> have
  priority 1 and the same creation time. All three are enqueued without error, the
  priority-5 task at the head. The first dequeue compares the entries of \<open>b\<close> and \<open>c\<close>,
  which agree on priority and creation time, so the tasks are compared and \<open>TypeError\<close>
  is raised: \<open>get_next_task\<close> returns no task, and the priority-5 task is no longer in
  the queue. With only \<open>b\<close> queued, enqueueing \<open>c\<close> itself raises.
\<close>

theorem priority_tie_raises:
  "map (t_id \<circ> snd \<circ> snd) (queue (add_tasks [task_a, task_b, task_c] (TaskQueue_init 3))) =
     [''a'', ''b'', ''c''] \<and>
   get_next_task (add_tasks [task_a, task_b, task_c] (TaskQueue_init 3)) =
     (Inl (TypeError (quoted ''<'' @ '' not supported between instances of '' @
        quoted ''Task'' @ '' and '' @ quoted ''Task'')),
      (TaskQueue_init 3)\<lparr>queue := [task_entry task_b, task_entry task_c]\<rparr>) \<and>
   fst (add_task task_c (snd (add_task task_b (TaskQueue_init 3)))) =
     Inl (TypeError (quoted ''<'' @ '' not supported between instances of '' @
        quoted ''Task'' @ '' and '' @ quoted ''Task''))"
  by code_simp

lemma entry_lt_keys: "entry_key a \<noteq> entry_key b \<Longrightarrow> \<exists>r. entry_lt a b = Inr r"
  by (cases a; cases b) (auto simp: entry_key_def)

lemma siftdown_fresh:
  assumes "pos < length heap"
    and "\<forall>i < length heap. i \<noteq> pos \<longrightarrow> entry_key (heap ! i) \<noteq> entry_key (heap ! pos)"
  shows "fst (siftdown heap startpos pos) = Inr () \<and> mset (snd (siftdown heap startpos pos)) = mset heap"
  using assms
proof (induction heap startpos pos rule: siftdown.induct)
  case (1 heap startpos pos)
  show ?case
  proof (cases "startpos < pos")
    case False
    then show ?thesis by (simp add: siftdown.simps[of heap startpos pos])
  next
    case True
    let ?pp = "(pos - 1) div 2"
    have pp: "?pp < pos" using True by auto
    then have ppl: "?pp < length heap" using "1.prems"(1) by simp
    have "entry_key (heap ! pos) \<noteq> entry_key (heap ! ?pp)"
      using "1.prems"(2) pp ppl by (metis nat_neq_iff)
    then obtain r where r: "entry_lt (heap ! pos) (heap ! ?pp) = Inr r"
      using entry_lt_keys by blast
    show ?thesis
    proof (cases r)
      case False
      with r True show ?thesis by (simp add: siftdown.simps[of heap startpos pos] Let_def)
    next
      case lt: True
      let ?h = "heap[?pp := heap ! pos, pos := heap ! ?pp]"
      have len: "length ?h = length heap" by simp
      have at_pp: "?h ! ?pp = heap ! pos" using pp ppl by simp
      have at_pos: "?h ! pos = heap ! ?pp" using "1.prems"(1) by simp
      have other: "?h ! i = heap ! i" if "i \<noteq> pos" "i \<noteq> ?pp" for i using that by simp
      have cond: "\<forall>i < length ?h. i \<noteq> ?pp \<longrightarrow> entry_key (?h ! i) \<noteq> entry_key (?h ! ?pp)"
      proof (intro allI impI)
        fix i assume i: "i < length ?h" "i \<noteq> ?pp"
        show "entry_key (?h ! i) \<noteq> entry_key (?h ! ?pp)"
        proof (cases "i = pos")
          case True
          then show ?thesis using at_pp at_pos "1.prems"(2) pp ppl by (metis nat_neq_iff)
        next
          case False
          then show ?thesis using other[of i] i at_pp "1.prems"(2) by (metis len)
        qed
      qed
      have IH: "fst (siftdown ?h startpos ?pp) = Inr () \<and> mset (snd (siftdown ?h startpos ?pp)) = mset ?h"
      proof -
        have rT: "r = True" using lt by simp
        have l: "?pp < length ?h" using ppl by simp
        show ?thesis by (rule "1.IH"[OF True refl r rT l cond])
      qed
      have "mset ?h = mset heap"
        by (rule mset_swap[OF "1.prems"(1) ppl])
      with IH r lt True show ?thesis
        by (simp add: siftdown.simps[of heap startpos pos] Let_def)
    qed
  qed
qed

lemma heappush_fresh:
  assumes "\<forall>x \<in> set heap. entry_key x \<noteq> entry_key item"
  shows "fst (heappush heap item) = Inr () \<and> mset (snd (heappush heap item)) = mset heap + {#item#}"
proof -
  have "\<forall>i < length (heap @ [item]). i \<noteq> length heap \<longrightarrow>
      entry_key ((heap @ [item]) ! i) \<noteq> entry_key ((heap @ [item]) ! length heap)"
    using assms by (auto simp: nth_append)
  then show ?thesis
    using siftdown_fresh[of "length heap" "heap @ [item]" 0] by (simp add: heappush_def)
qed


lemma add_task_fresh:
  assumes "\<forall>x \<in> set (queue tq). entry_key x \<noteq> (- t_priority task, t_created_at task)"
  shows "\<exists>tq'. add_task task tq = (Inr (), tq') \<and>
     mset (queue tq') = mset (queue tq) + {#task_entry task#} \<and>
     running tq' = running tq \<and> results tq' = results tq \<and> max_concurrent tq' = max_concurrent tq"
proof -
  have "\<forall>x \<in> set (queue tq). entry_key x \<noteq> entry_key (task_entry task)"
    using assms by (simp add: entry_key_def task_entry_def)
  from heappush_fresh[OF this] show ?thesis
    by (cases "heappush (queue tq) (task_entry task)") (auto simp: add_task_def task_entry_def)
qed

text \<open>
  Submission away from a tie. When the two backend writes of its \<open>store_memory\<close>
  succeed and no queued entry has the new task's priority and creation time,
  \<open>submit_task\<close> returns the fresh task id; the record stored under the fresh record
  id has the task's name, description, plugin chain and parameters and the status
  pending as its content and the tags \<open>task\<close>, \<open>pending\<close>; the queue gains one entry,
  the task with that record id as \<open>context_id\<close>; and nothing is started or recorded as
  a result.
\<close>

lemma submit_task_fresh:
  assumes wf: "wf_buffer (ram_buffer (memory_engine agent))"
    and d: "durable_failure (submit_store env) = None"
    and i: "index_failure (submit_store env) = None"
    and fresh: "\<forall>x \<in> set (queue (task_queue agent)). entry_key x \<noteq> (- priority, created_now env)"
  shows "\<exists>agent' ctx.
     submit_task name description plugin_chain parameters priority env agent =
       (Inr (task_uuid env), agent') \<and>
     fst (retrieve_memory (new_id (submit_store env)) now (memory_engine agent')) = Inr (Some ctx) \<and>
     mc_content ctx =
       [(''task_id'', JStr (task_uuid env)), (''name'', JStr name),
        (''description'', JStr description), (''plugins'', JList (map JStr plugin_chain)),
        (''parameters'', JObj parameters), (''status'', JStr ''pending'')] \<and>
     mc_tags ctx = [''task'', ''pending''] \<and>
     mset (queue (task_queue agent')) =
       mset (queue (task_queue agent)) +
       {#task_entry ((new_task name description plugin_chain parameters priority env)
           \<lparr>t_context_id := Some (new_id (submit_store env))\<rparr>)#} \<and>
     running (task_queue agent') = running (task_queue agent) \<and>
     results (task_queue agent') = results (task_queue agent) \<and>
     plugin_manager agent' = plugin_manager agent"
proof -
  let ?task = "new_task name description plugin_chain parameters priority env"
  let ?senv = "submit_store env"
  let ?e = "memory_engine agent"
  let ?ctx = "new_context (task_context ?task) (Some [''task'', ''pending'']) ?senv ?e"
  let ?task' = "?task\<lparr>t_context_id := Some (new_id ?senv)\<rparr>"
  obtain e' where st: "store_memory (task_context ?task) (Some [''task'', ''pending'']) ?senv ?e =
      (Inr (new_id ?senv), e')"
    using store_memory_ok[OF wf d i, of "task_context ?task" "Some [''task'', ''pending'']"] by simp
  have "\<forall>x \<in> set (queue (task_queue agent)). entry_key x \<noteq> (- t_priority ?task', t_created_at ?task')"
    using fresh by (simp add: new_task_def)
  from add_task_fresh[OF this] obtain tq' where
    add: "add_task ?task' (task_queue agent) = (Inr (), tq')"
    and q: "mset (queue tq') = mset (queue (task_queue agent)) + {#task_entry ?task'#}"
    and r: "running tq' = running (task_queue agent)" "results tq' = results (task_queue agent)"
    by blast
  have tid: "t_id ?task = task_uuid env" by (simp add: new_task_def)
  have sub: "submit_task name description plugin_chain parameters priority env agent =
      (Inr (task_uuid env), agent\<lparr>memory_engine := e', task_queue := tq'\<rparr>)"
    unfolding submit_task_def Let_def st using add tid by simp
  have "keeps (new_id ?senv) ?ctx e'" by (rule keeps_store_new(2)[OF wf st])
  then have ret: "fst (retrieve_memory (new_id ?senv) now e') = Inr (Some ?ctx)"
    by (rule keeps_retrieve)
  have c: "mc_content ?ctx =
       [(''task_id'', JStr (task_uuid env)), (''name'', JStr name),
        (''description'', JStr description), (''plugins'', JList (map JStr plugin_chain)),
        (''parameters'', JObj parameters), (''status'', JStr ''pending'')]"
    by (simp add: new_context_def task_context_def new_task_def)
  have t: "mc_tags ?ctx = [''task'', ''pending'']" by (simp add: new_context_def)
  show ?thesis
    apply (rule exI[of _ "agent\<lparr>memory_engine := e', task_queue := tq'\<rparr>"])
    apply (rule exI[of _ ?ctx])
    using sub ret c t q r by simp
qed

lemma submit_task_fresh_example:
  "fst (submit_task ''echo'' ''say it'' [''echo''] [(''message'', JStr ''hi'')] 3
         sample_submit_env sample_agent) = Inr ''task-1'' \<and>
   queue (task_queue (snd (submit_task ''echo'' ''say it'' [''echo''] [(''message'', JStr ''hi'')] 3
         sample_submit_env sample_agent))) = [(- 3, 100, sample_task)] \<and>
   map_option mc_tags (projr (fst (retrieve_memory ''id1'' 5 (memory_engine
      (snd (submit_task ''echo'' ''say it'' [''echo''] [(''message'', JStr ''hi'')] 3
         sample_submit_env sample_agent)))))) = Some [''task'', ''pending'']"
proof -
  have h1: "wf_buffer (ram_buffer (memory_engine sample_agent))" by code_simp
  have h2: "durable_failure (submit_store sample_submit_env) = None" by code_simp
  have h3: "index_failure (submit_store sample_submit_env) = None" by code_simp
  have h4: "\<forall>x \<in> set (queue (task_queue sample_agent)).
      entry_key x \<noteq> (- 3, created_now sample_submit_env)" by code_simp
  from submit_task_fresh[OF h1 h2 h3 h4, of "''echo''" "''say it''" "[''echo'']"
      "[(''message'', JStr ''hi'')]" 5]
  have a: "fst (submit_task ''echo'' ''say it'' [''echo''] [(''message'', JStr ''hi'')] 3
         sample_submit_env sample_agent) = Inr (task_uuid sample_submit_env)"
    by auto
  have a': "task_uuid sample_submit_env = ''task-1''" by code_simp
  have b: "queue (task_queue (snd (submit_task ''echo'' ''say it'' [''echo''] [(''message'', JStr ''hi'')] 3
         sample_submit_env sample_agent))) = [(- 3, 100, sample_task)]" by code_simp
  have c: "map_option mc_tags (projr (fst (retrieve_memory ''id1'' 5 (memory_engine
      (snd (submit_task ''echo'' ''say it'' [''echo''] [(''message'', JStr ''hi'')] 3
         sample_submit_env sample_agent)))))) = Some [''task'', ''pending'']" by code_simp
  show ?thesis using a a' b c by simp
qed

text \<open>
  Submission at a tie. When exactly one task is queued and the submitted task has its
  priority and creation time (and, as always, another id), \<open>submit_task\<close> raises
  \<open>TypeError\<close> whatever the other arguments are; by then the pending record is stored
  and the task is appended to the queue.
\<close>

lemma submit_task_tie:
  assumes wf: "wf_buffer (ram_buffer (memory_engine agent))"
    and d: "durable_failure (submit_store env) = None"
    and i: "index_failure (submit_store env) = None"
    and q: "queue (task_queue agent) = [(- priority, created_now env, queued)]"
    and other: "t_id queued \<noteq> task_uuid env"
  shows "\<exists>agent' ctx.
     submit_task name description plugin_chain parameters priority env agent =
       (Inl (TypeError (quoted ''<'' @ '' not supported between instances of '' @
          quoted ''Task'' @ '' and '' @ quoted ''Task'')), agent') \<and>
     fst (retrieve_memory (new_id (submit_store env)) now (memory_engine agent')) = Inr (Some ctx) \<and>
     mc_content ctx = task_context (new_task name description plugin_chain parameters priority env) \<and>
     mc_tags ctx = [''task'', ''pending''] \<and>
     queue (task_queue agent') =
       [(- priority, created_now env, queued),
        task_entry ((new_task name description plugin_chain parameters priority env)
           \<lparr>t_context_id := Some (new_id (submit_store env))\<rparr>)]"
proof -
  let ?task = "new_task name description plugin_chain parameters priority env"
  let ?senv = "submit_store env"
  let ?e = "memory_engine agent"
  let ?ctx = "new_context (task_context ?task) (Some [''task'', ''pending'']) ?senv ?e"
  let ?task' = "?task\<lparr>t_context_id := Some (new_id ?senv)\<rparr>"
  let ?err = "TypeError (quoted ''<'' @ '' not supported between instances of '' @
          quoted ''Task'' @ '' and '' @ quoted ''Task'')"
  let ?x = "(- priority, created_now env, queued)"
  obtain e' where st: "store_memory (task_context ?task) (Some [''task'', ''pending'']) ?senv ?e =
      (Inr (new_id ?senv), e')"
    using store_memory_ok[OF wf d i, of "task_context ?task" "Some [''task'', ''pending'']"] by simp
  have ne: "\<not> Task_eq ?task' queued" using other by (auto simp: Task_eq_def new_task_def)
  have lt: "entry_lt (task_entry ?task') ?x = Inl ?err"
    using ne by (simp add: task_entry_def new_task_def)
  have "siftdown [?x, task_entry ?task'] 0 (Suc 0) = (Inl ?err, [?x, task_entry ?task'])"
    using lt by (simp add: siftdown.simps[of _ 0 "Suc 0"])
  then have add: "add_task ?task' (task_queue agent) =
      (Inl ?err, (task_queue agent)\<lparr>queue := [?x, task_entry ?task']\<rparr>)"
    by (simp add: add_task_def heappush_def q task_entry_def)
  have sub: "submit_task name description plugin_chain parameters priority env agent =
      (Inl ?err, agent\<lparr>memory_engine := e',
         task_queue := (task_queue agent)\<lparr>queue := [?x, task_entry ?task']\<rparr>\<rparr>)"
    unfolding submit_task_def Let_def st using add by simp
  have "keeps (new_id ?senv) ?ctx e'" by (rule keeps_store_new(2)[OF wf st])
  then have ret: "fst (retrieve_memory (new_id ?senv) now e') = Inr (Some ?ctx)"
    by (rule keeps_retrieve)
  have c: "mc_content ?ctx = task_context ?task" by (simp add: new_context_def)
  have t: "mc_tags ?ctx = [''task'', ''pending'']" by (simp add: new_context_def)
  show ?thesis
    apply (rule exI[of _ "agent\<lparr>memory_engine := e',
         task_queue := (task_queue agent)\<lparr>queue := [?x, task_entry ?task']\<rparr>\<rparr>"])
    apply (rule exI[of _ ?ctx])
    using sub ret c t by simp
qed

text \<open>
  Claim C8 at a failing input. One task of priority 3 created at instant 100 is queued.
  A second submission with the same priority, made at the same instant, stores its
  pending record and appends its task to the queue, and then the comparison of the new
  entry with the queued one raises \<open>TypeError\<close>: \<open>submit_task\<close> returns no task id. The
  pending record of the task that was not submitted stays in memory, and the task stays
  at the end of the queue.
\<close>

theorem submit_tie_raises:
  "fst (submit_task ''echo'' ''say it'' [''echo''] [(''message'', JStr ''hi'')] 3
         sample_submit_env sample_agent) = Inr ''task-1'' \<and>
   fst (submit_task ''echo'' ''say it again'' [''echo''] [(''message'', JStr ''ho'')] 3
         second_submit_env submitted_agent) =
     Inl (TypeError (quoted ''<'' @ '' not supported between instances of '' @
        quoted ''Task'' @ '' and '' @ quoted ''Task'')) \<and>
   map_option mc_content (projr (fst (retrieve_memory ''id2'' 5 (memory_engine
      (snd (submit_task ''echo'' ''say it again'' [''echo''] [(''message'', JStr ''ho'')] 3
         second_submit_env submitted_agent)))))) =
     Some [(''task_id'', JStr ''task-2''), (''name'', JStr ''echo''),
           (''description'', JStr ''say it again''), (''plugins'', JList [JStr ''echo'']),
           (''parameters'', JObj [(''message'', JStr ''ho'')]), (''status'', JStr ''pending'')] \<and>
   map (\<lambda>x. (fst x, fst (snd x), t_id (snd (snd x)), t_context_id (snd (snd x))))
     (queue (task_queue (snd (submit_task ''echo'' ''say it again'' [''echo'']
        [(''message'', JStr ''ho'')] 3 second_submit_env submitted_agent)))) =
     [(- 3, 100, ''task-1'', Some ''id1''), (- 3, 100, ''task-2'', Some ''id2'')]"
  by code_simp















theorem result_error_iff_failed_witness:
  "r_status (projr (fst (execute_task_chain sample_plugins (chain_task [''p1'', ''p2'', ''p3''])
      sample_chain_env ([], sample_engine)))) = FAILED \<and>
   r_error (projr (fst (execute_task_chain sample_plugins (chain_task [''p1'', ''p2'', ''p3''])
      sample_chain_env ([], sample_engine)))) = Some ''p2 failed'' \<and>
   r_status (projr (fst (execute_task_chain sample_plugins (chain_task [''p1'', ''p3''])
      sample_chain_env ([], sample_engine)))) = COMPLETED \<and>
   r_error (projr (fst (execute_task_chain sample_plugins (chain_task [''p1'', ''p3''])
      sample_chain_env ([], sample_engine)))) = None \<and>
   error_iff_failed (projr (fst (execute_task_chain sample_plugins (chain_task [''p1'', ''p2'', ''p3''])
      sample_chain_env ([], sample_engine)))) \<and>
   error_iff_failed (projr (fst (execute_task_chain sample_plugins (chain_task [''p1'', ''p3''])
      sample_chain_env ([], sample_engine))))"
proof -
  let ?bad = "execute_task_chain sample_plugins (chain_task [''p1'', ''p2'', ''p3''])
      sample_chain_env ([], sample_engine)"
  let ?good = "execute_task_chain sample_plugins (chain_task [''p1'', ''p3''])
      sample_chain_env ([], sample_engine)"
  have r1: "fst ?bad = Inr (projr (fst ?bad))" by code_simp
  have r2: "fst ?good = Inr (projr (fst ?good))" by code_simp
  have e1: "error_iff_failed (projr (fst ?bad))"
    using result_error_iff_failed[of sample_plugins "chain_task [''p1'', ''p2'', ''p3'']"
        sample_chain_env "([], sample_engine)" "projr (fst ?bad)"] r1 by blast
  have e2: "error_iff_failed (projr (fst ?good))"
    using result_error_iff_failed[of sample_plugins "chain_task [''p1'', ''p3'']"
        sample_chain_env "([], sample_engine)" "projr (fst ?good)"] r2 by blast
  have a: "r_status (projr (fst ?bad)) = FAILED" by code_simp
  have b: "r_error (projr (fst ?bad)) = Some ''p2 failed''" by code_simp
  have c: "r_status (projr (fst ?good)) = COMPLETED" by code_simp
  have d: "r_error (projr (fst ?good)) = None" by code_simp
  show ?thesis by (intro conjI a b c d e1 e2)
qed

lemma parent_less: "0 < i \<Longrightarrow> parent i < i"
  by (simp add: parent_def)

lemma parent_children: "0 < i \<Longrightarrow> parent i = p \<longleftrightarrow> i = 2 * p + 1 \<or> i = 2 * p + 2"
  by (auto simp: parent_def)

lemma entry_lt_key:
  "entry_key a \<noteq> entry_key b \<Longrightarrow> entry_lt a b = Inr (entry_key a < entry_key b)"
  by (cases a; cases b) (auto simp: entry_key_def less_prod_def)

lemma nth_swap:
  "i < length h \<Longrightarrow> j < length h \<Longrightarrow>
   (h[i := h ! j, j := h ! i]) ! k = (if k = j then h ! i else if k = i then h ! j else h ! k)"
  by (simp add: nth_list_update)

lemma distinct_keys_swap:
  assumes "i < length h" "j < length h" "distinct (map entry_key h)"
  shows "distinct (map entry_key (h[i := h ! j, j := h ! i]))"
proof -
  have "mset (h[i := h ! j, j := h ! i]) = mset h" by (rule mset_swap[OF assms(2,1)])
  then have "mset (map entry_key (h[i := h ! j, j := h ! i])) = mset (map entry_key h)"
    by (metis mset_map)
  then show ?thesis using assms(3) by (metis mset_eq_imp_distinct_iff)
qed

lemma distinct_keys_nth:
  "distinct (map entry_key h) \<Longrightarrow> i < length h \<Longrightarrow> j < length h \<Longrightarrow> i \<noteq> j \<Longrightarrow>
   entry_key (h ! i) \<noteq> entry_key (h ! j)"
  by (metis distinct_conv_nth length_map nth_map)


lemma heap_ok_from_except:
  assumes ex: "heap_except h pos" and below: "below_ok h pos"
    and edge: "0 < pos \<Longrightarrow> pos < length h \<Longrightarrow> entry_key (h ! parent pos) < entry_key (h ! pos)"
  shows "heap_ok h"
  unfolding heap_ok_def
proof (intro allI impI)
  fix i assume i: "i < length h" "0 < i"
  show "entry_key (h ! parent i) < entry_key (h ! i)"
  proof (cases "i = pos")
    case True
    then show ?thesis using edge i by simp
  next
    case False
    show ?thesis
    proof (cases "parent i = pos")
      case True
      then show ?thesis using below i by (simp add: below_ok_def)
    next
      case np: False
      then show ?thesis using ex i False by (simp add: heap_except_def)
    qed
  qed
qed

lemma siftdown_heap:
  assumes "pos < length h" and "distinct (map entry_key h)"
    and "heap_except h pos" and "below_ok h pos"
  shows "fst (siftdown h 0 pos) = Inr () \<and> heap_ok (snd (siftdown h 0 pos)) \<and>
         mset (snd (siftdown h 0 pos)) = mset h"
  using assms
proof (induction h "0::nat" pos rule: siftdown.induct)
  case (1 h pos)
  show ?case
  proof (cases "0 < pos")
    case False
    then have "heap_ok h" using heap_ok_from_except[OF "1.prems"(3,4)] by simp
    then show ?thesis using False by (simp add: siftdown.simps[of h 0 pos])
  next
    case True
    let ?pp = "(pos - 1) div 2"
    have pp: "?pp = parent pos" by (simp add: parent_def)
    have ppl: "?pp < pos" using True by auto
    then have pplen: "?pp < length h" using "1.prems"(1) by simp
    have ne: "entry_key (h ! pos) \<noteq> entry_key (h ! ?pp)"
      using distinct_keys_nth[OF "1.prems"(2) "1.prems"(1) pplen] ppl by simp
    then have cmp: "entry_lt (h ! pos) (h ! ?pp) = Inr (entry_key (h ! pos) < entry_key (h ! ?pp))"
      by (rule entry_lt_key)
    show ?thesis
    proof (cases "entry_key (h ! pos) < entry_key (h ! ?pp)")
      case False
      then have "entry_key (h ! parent pos) < entry_key (h ! pos)" using ne pp by (simp add: neq_iff)
      then have "heap_ok h" using heap_ok_from_except[OF "1.prems"(3,4)] by simp
      then show ?thesis using True cmp False by (simp add: siftdown.simps[of h 0 pos] Let_def)
    next
      case lt: True
      let ?h = "h[?pp := h ! pos, pos := h ! ?pp]"
      have len: "length ?h = length h" by simp
      have nth: "?h ! k = (if k = pos then h ! ?pp else if k = ?pp then h ! pos else h ! k)" for k
        using nth_swap[OF pplen "1.prems"(1)] by simp
      have d: "distinct (map entry_key ?h)" by (rule distinct_keys_swap[OF pplen "1.prems"(1,2)])
      have ex: "\<And>i. i < length h \<Longrightarrow> 0 < i \<Longrightarrow> i \<noteq> pos \<Longrightarrow>
          (if parent i = pos then entry_key (h ! parent pos) < entry_key (h ! i)
           else entry_key (h ! parent i) < entry_key (h ! i))"
        using "1.prems"(3) True by (simp add: heap_except_def)
      have below': "below_ok ?h ?pp"
        unfolding below_ok_def
      proof (intro allI impI)
        fix i assume i: "i < length ?h" "0 < i \<and> parent i = ?pp"
        show "entry_key (?h ! ?pp) < entry_key (?h ! i)"
        proof (cases "i = pos")
          case True
          then show ?thesis using lt nth ppl by simp
        next
          case False
          have "i \<noteq> ?pp" using i parent_less[of i] by auto
          moreover have "entry_key (h ! ?pp) < entry_key (h ! i)"
            using ex[of i] i False pp ppl by auto
          ultimately show ?thesis using lt nth False ppl by auto
        qed
      qed
      have ex': "heap_except ?h ?pp"
        unfolding heap_except_def
      proof (intro allI impI)
        fix i assume i: "i < length ?h" "0 < i \<and> i \<noteq> ?pp"
        show "if parent i = ?pp then 0 < ?pp \<longrightarrow> entry_key (?h ! parent ?pp) < entry_key (?h ! i)
              else entry_key (?h ! parent i) < entry_key (?h ! i)"
        proof (cases "parent i = ?pp")
          case True
          have up: "entry_key (h ! parent ?pp) < entry_key (h ! ?pp)" if "0 < ?pp"
            using ex[of ?pp] that pplen ppl parent_less[of ?pp] pp by auto
          have "entry_key (?h ! parent ?pp) < entry_key (?h ! i)" if pos0: "0 < ?pp"
          proof -
            have a: "?h ! parent ?pp = h ! parent ?pp"
              using nth[of "parent ?pp"] parent_less[OF pos0] ppl by auto
            show ?thesis
            proof (cases "i = pos")
              case True
              then show ?thesis using a nth up[OF pos0] by simp
            next
              case False
              then have "entry_key (h ! ?pp) < entry_key (h ! i)"
                using ex[of i] i True pp ppl by auto
              then show ?thesis using a nth False i up[OF pos0] by auto
            qed
          qed
          then show ?thesis using True by simp
        next
          case False
          then have ip: "i \<noteq> pos" using pp by auto
          have hi: "?h ! i = h ! i" using nth ip i by simp
          show ?thesis
          proof (cases "parent i = pos")
            case True
            then have "entry_key (h ! ?pp) < entry_key (h ! i)"
              using ex[of i] i ip pp by auto
            then show ?thesis using False True hi nth by simp
          next
            case np: False
            then have "?h ! parent i = h ! parent i" using nth False by simp
            moreover have "entry_key (h ! parent i) < entry_key (h ! i)"
              using ex[of i] i ip np by auto
            ultimately show ?thesis using False hi by simp
          qed
        qed
      qed
      have l: "?pp < length ?h" using pplen by simp
      have IH: "fst (siftdown ?h 0 ?pp) = Inr () \<and> heap_ok (snd (siftdown ?h 0 ?pp)) \<and>
          mset (snd (siftdown ?h 0 ?pp)) = mset ?h"
      proof -
        have bT: "(entry_key (h ! pos) < entry_key (h ! ?pp)) = True" using lt by simp
        show ?thesis by (rule "1.hyps"[OF True refl cmp bT l d ex' below'])
      qed
      have "mset ?h = mset h" by (rule mset_swap[OF "1.prems"(1) pplen])
      with IH True cmp lt show ?thesis
        by (simp add: siftdown.simps[of h 0 pos] Let_def)
    qed
  qed
qed


lemma siftup_loop_heap:
  assumes "pos < length h" and "distinct (map entry_key h)" and "heap_except h pos"
  shows "\<exists>leaf h'. siftup_loop h pos = (Inr leaf, h') \<and> leaf < length h' \<and>
           distinct (map entry_key h') \<and> heap_except h' leaf \<and> below_ok h' leaf \<and>
           mset h' = mset h"
  using assms
proof (induction h pos rule: siftup_loop.induct)
  case (1 h pos)
  let ?n = "length h"
  show ?case
  proof (cases "pos < ?n div 2")
    case False
    have "below_ok h pos"
      unfolding below_ok_def
    proof (intro allI impI)
      fix i assume i: "i < length h" "0 < i \<and> parent i = pos"
      then have "i = 2 * pos + 1 \<or> i = 2 * pos + 2" using parent_children[of i pos] by simp
      then have "length h \<le> i" using False by auto
      then show "entry_key (h ! pos) < entry_key (h ! i)" using i by simp
    qed
    then show ?thesis using False "1.prems" by (simp add: siftup_loop.simps[of h pos])
  next
    case True
    let ?cp = "2 * pos + 1"
    have cpl: "?cp < ?n" using True by auto
    define lt where "lt = (if ?cp + 1 < ?n then entry_key (h ! ?cp) < entry_key (h ! (?cp + 1)) else True)"
    have cmp: "(if ?cp + 1 < ?n then entry_lt (h ! ?cp) (h ! (?cp + 1)) else Inr True) = Inr lt"
    proof (cases "?cp + 1 < ?n")
      case True
      have "entry_key (h ! ?cp) \<noteq> entry_key (h ! (?cp + 1))"
        using distinct_keys_nth[OF "1.prems"(2) cpl True] by simp
      then show ?thesis using True entry_lt_key by (simp add: lt_def)
    next
      case False
      then show ?thesis by (simp add: lt_def)
    qed
    define c where "c = (if lt then ?cp else ?cp + 1)"
    have cl: "c < ?n" using cpl by (auto simp: c_def lt_def split: if_splits)
    have pc: "pos < c" by (simp add: c_def)
    have parc: "parent c = pos" by (auto simp: c_def parent_def)
    let ?h = "h[pos := h ! c, c := h ! pos]"
    have nth: "?h ! k = (if k = c then h ! pos else if k = pos then h ! c else h ! k)" for k
      using nth_swap[OF "1.prems"(1) cl] by simp
    have d: "distinct (map entry_key ?h)" by (rule distinct_keys_swap[OF "1.prems"(1) cl "1.prems"(2)])
    have ex: "\<And>i. i < length h \<Longrightarrow> 0 < i \<Longrightarrow> i \<noteq> pos \<Longrightarrow>
          (if parent i = pos then 0 < pos \<longrightarrow> entry_key (h ! parent pos) < entry_key (h ! i)
           else entry_key (h ! parent i) < entry_key (h ! i))"
      using "1.prems"(3) by (simp add: heap_except_def)
    have smaller: "entry_key (h ! c) < entry_key (h ! i)"
      if i: "i < ?n" "0 < i" "parent i = pos" "i \<noteq> c" for i
    proof -
      have "i = ?cp \<or> i = ?cp + 1" using parent_children[of i pos] i by auto
      then show ?thesis
      proof
        assume icp: "i = ?cp"
        then have c1: "c = ?cp + 1" and nlt: "\<not> lt" using i(4) by (auto simp: c_def split: if_splits)
        then have "?cp + 1 < ?n" and "\<not> entry_key (h ! ?cp) < entry_key (h ! (?cp + 1))"
          by (auto simp: lt_def split: if_splits)
        moreover have "entry_key (h ! ?cp) \<noteq> entry_key (h ! (?cp + 1))"
          using distinct_keys_nth[OF "1.prems"(2) cpl \<open>?cp + 1 < ?n\<close>] by simp
        ultimately show ?thesis using icp c1 by (simp add: neq_iff)
      next
        assume icp: "i = ?cp + 1"
        then have c1: "c = ?cp" and "lt" using i(4) by (auto simp: c_def split: if_splits)
        then show ?thesis using icp i(1) by (simp add: lt_def)
      qed
    qed
    have ex': "heap_except ?h c"
      unfolding heap_except_def
    proof (intro allI impI)
      fix i assume i: "i < length ?h" "0 < i \<and> i \<noteq> c"
      show "if parent i = c then 0 < c \<longrightarrow> entry_key (?h ! parent c) < entry_key (?h ! i)
            else entry_key (?h ! parent i) < entry_key (?h ! i)"
      proof (cases "parent i = c")
        case True
        then have "pos < i" using pc parent_less[of i] i by auto
        then have "entry_key (h ! c) < entry_key (h ! i)"
          using ex[of i] i True pc by auto
        then show ?thesis using True parc nth \<open>pos < i\<close> i by auto
      next
        case False
        show ?thesis
        proof (cases "i = pos")
          case True
          then have p0: "0 < pos" using i by simp
          have "entry_key (h ! parent pos) < entry_key (h ! c)"
            using ex[of c] cl pc parc p0 by auto
          moreover have "parent pos \<noteq> c" "parent pos \<noteq> pos"
            using parent_less[OF p0] pc by auto
          ultimately show ?thesis using False True nth by auto
        next
          case ip: False
          have hi: "?h ! i = h ! i" using nth ip i by simp
          show ?thesis
          proof (cases "parent i = pos")
            case True
            then have "entry_key (h ! c) < entry_key (h ! i)"
              using smaller[of i] i by auto
            then show ?thesis using False True hi nth pc by auto
          next
            case np: False
            then have "?h ! parent i = h ! parent i" using nth False by simp
            moreover have "entry_key (h ! parent i) < entry_key (h ! i)"
              using ex[of i] i ip np by auto
            ultimately show ?thesis using False hi by simp
          qed
        qed
      qed
    qed
    have cl': "c < length ?h" using cl by simp
    have cdef: "c = (if lt then ?cp else ?cp + 1)" by (rule c_def)
    from "1.IH"[OF True refl cmp cdef cl' d ex']
    obtain leaf h' where r: "siftup_loop ?h c = (Inr leaf, h')" "leaf < length h'"
        "distinct (map entry_key h')" "heap_except h' leaf" "below_ok h' leaf" "mset h' = mset ?h"
      by blast
    have "siftup_loop h pos = siftup_loop ?h c"
      by (subst siftup_loop.simps[of h pos])
        (simp only: True if_True Let_def cmp sum.case c_def[symmetric])
    moreover have "mset ?h = mset h" by (rule mset_swap[OF cl "1.prems"(1)])
    ultimately show ?thesis using r by auto
  qed
qed

lemma siftup_heap:
  assumes "pos < length h" and "distinct (map entry_key h)" and "heap_except h pos"
    and "pos = 0"
  shows "fst (siftup h pos) = Inr () \<and> heap_ok (snd (siftup h pos)) \<and>
         mset (snd (siftup h pos)) = mset h"
proof -
  from siftup_loop_heap[OF assms(1-3)]
  obtain leaf h' where r: "siftup_loop h pos = (Inr leaf, h')" "leaf < length h'"
      "distinct (map entry_key h')" "heap_except h' leaf" "below_ok h' leaf" "mset h' = mset h"
    by blast
  have "siftup h pos = siftdown h' 0 leaf" using r(1) assms(4) by (simp add: siftup_def)
  then show ?thesis using siftdown_heap[OF r(2-5)] r(6) by simp
qed

lemma heap_ok_root:
  assumes "heap_ok h"
  shows "i < length h \<Longrightarrow> 0 < i \<Longrightarrow> entry_key (h ! 0) < entry_key (h ! i)"
proof (induction i rule: less_induct)
  case (less i)
  have step: "entry_key (h ! parent i) < entry_key (h ! i)"
    using assms less.prems by (simp add: heap_ok_def)
  show ?case
  proof (cases "parent i = 0")
    case True
    then show ?thesis using step by simp
  next
    case False
    have "parent i < i" using less.prems by (simp add: parent_less)
    then have "entry_key (h ! 0) < entry_key (h ! parent i)"
      using less.IH[of "parent i"] less.prems False by simp
    then show ?thesis using step by simp
  qed
qed

lemma heap_ok_butlast: "heap_ok h \<Longrightarrow> heap_ok (butlast h)"
proof -
  assume a: "heap_ok h"
  show "heap_ok (butlast h)"
    unfolding heap_ok_def
  proof (intro allI impI)
    fix i assume i: "i < length (butlast h)" "0 < i"
    then have "parent i < length (butlast h)" using parent_less[of i] by simp
    then show "entry_key (butlast h ! parent i) < entry_key (butlast h ! i)"
      using a i by (simp add: heap_ok_def nth_butlast)
  qed
qed

lemma heappop_heap:
  assumes ok: "heap_ok h" and d: "distinct (map entry_key h)" and ne: "h \<noteq> []"
  shows "fst (heappop h) = Inr (h ! 0) \<and> heap_ok (snd (heappop h)) \<and>
         mset (snd (heappop h)) = mset h - {#h ! 0#}"
proof (cases "butlast h = []")
  case True
  then have "h = [last h]" using ne by (metis append_butlast_last_id append_Nil)
  then obtain x where h: "h = [x]" by metis
  show ?thesis by (simp add: h heappop_def heap_ok_def)
next
  case False
  let ?rest = "butlast h"
  let ?l = "last h"
  let ?h = "?rest[0 := ?l]"
  have h: "h = ?rest @ [?l]" using ne by simp
  have len: "0 < length ?rest" using False by (metis length_greater_0_conv)
  have r0: "?rest ! 0 = h ! 0" using len by (simp add: nth_butlast)
  have okr: "heap_ok ?rest" by (rule heap_ok_butlast[OF ok])
  have dk: "distinct (map entry_key ?rest @ [entry_key ?l])"
    using d h by (metis list.simps(8,9) map_append)
  have dh: "distinct (map entry_key ?h)"
  proof -
    have "map entry_key ?h = (map entry_key ?rest)[0 := entry_key ?l]" by (simp add: map_update)
    moreover have "distinct ((map entry_key ?rest)[0 := entry_key ?l])"
      using dk by (intro distinct_list_update) auto
    ultimately show ?thesis by simp
  qed
  have ex: "heap_except ?h 0"
    unfolding heap_except_def
  proof (intro allI impI)
    fix i assume i: "i < length ?h" "0 < i \<and> i \<noteq> 0"
    show "if parent i = 0 then 0 < (0::nat) \<longrightarrow> entry_key (?h ! parent 0) < entry_key (?h ! i)
          else entry_key (?h ! parent i) < entry_key (?h ! i)"
    proof (cases "parent i = 0")
      case True
      then show ?thesis by simp
    next
      case np: False
      have "entry_key (?rest ! parent i) < entry_key (?rest ! i)"
        using okr i by (simp add: heap_ok_def)
      then show ?thesis using np i by simp
    qed
  qed
  have l: "0 < length ?h" using len by simp
  note su = siftup_heap[OF l dh ex refl]
  obtain r h' where s: "siftup ?h 0 = (r, h')" by (cases "siftup ?h 0")
  have r: "r = Inr ()" and okh: "heap_ok h'" and ms: "mset h' = mset ?h"
    using su s by simp_all
  have pop: "heappop h = (Inr (?rest ! 0), h')"
    using ne False s r by (cases h) (simp_all add: heappop_def Let_def)
  have "mset ?h = add_mset ?l (mset ?rest - {#?rest ! 0#})"
    using len by (simp add: mset_update)
  moreover have "mset h = add_mset ?l (mset ?rest)" using h by (metis mset.simps(2) mset_append union_mset_add_mset_right add.right_neutral mset.simps(1))
  moreover have "?rest ! 0 \<in># mset ?rest" using len by simp
  ultimately have "mset ?h = mset h - {#h ! 0#}" using r0 by simp
  then show ?thesis using pop okh ms r0 by simp
qed

lemma heappush_heap:
  assumes ok: "heap_ok h" and d: "distinct (map entry_key h)"
    and fresh: "entry_key item \<notin> entry_key ` set h"
  shows "fst (heappush h item) = Inr () \<and> heap_ok (snd (heappush h item)) \<and>
         mset (snd (heappush h item)) = add_mset item (mset h)"
proof -
  let ?h = "h @ [item]"
  have l: "length h < length ?h" by simp
  have dh: "distinct (map entry_key ?h)" using d fresh by simp
  have ex: "heap_except ?h (length h)"
    unfolding heap_except_def
  proof (intro allI impI)
    fix i assume i: "i < length ?h" "0 < i \<and> i \<noteq> length h"
    then have il: "i < length h" by simp
    then have pl: "parent i < length h" using parent_less[of i] i by simp
    have "entry_key (h ! parent i) < entry_key (h ! i)" using ok il i by (simp add: heap_ok_def)
    then show "if parent i = length h
        then 0 < length h \<longrightarrow> entry_key (?h ! parent (length h)) < entry_key (?h ! i)
        else entry_key (?h ! parent i) < entry_key (?h ! i)"
      using il pl by (simp add: nth_append)
  qed
  have below: "below_ok ?h (length h)"
    unfolding below_ok_def
  proof (intro allI impI)
    fix i assume i: "i < length ?h" "0 < i \<and> parent i = length h"
    then have "length h < i" using parent_less[of i] by simp
    then show "entry_key (?h ! length h) < entry_key (?h ! i)" using i by simp
  qed
  from siftdown_heap[OF l dh ex below] show ?thesis by (simp add: heappush_def)
qed

lemma distinct_keys_mset:
  "mset h' = mset h \<Longrightarrow> distinct (map entry_key h) \<Longrightarrow> distinct (map entry_key h')"
  by (metis mset_map mset_eq_imp_distinct_iff)

text \<open>
  The ordering of the queue when no two queued entries agree on both priority and
  creation time. Enqueueing a task whose priority and creation time differ from every
  queued entry's succeeds and keeps the queue well formed.
\<close>

lemma add_task_ordered:
  assumes ok: "queue_ok tq"
    and fresh: "(- t_priority task, t_created_at task) \<notin> entry_key ` set (queue tq)"
  shows "\<exists>tq'. add_task task tq = (Inr (), tq') \<and> queue_ok tq' \<and>
     mset (queue tq') = add_mset (task_entry task) (mset (queue tq))"
proof -
  have f: "entry_key (task_entry task) \<notin> entry_key ` set (queue tq)"
    using fresh by (simp add: entry_key_def task_entry_def)
  have okh: "heap_ok (queue tq)" and d: "distinct (map entry_key (queue tq))"
    and te: "\<forall>x \<in> set (queue tq). x = task_entry (snd (snd x))"
    using ok by (simp_all add: queue_ok_def)
  obtain r h' where p: "heappush (queue tq) (task_entry task) = (r, h')"
    by (cases "heappush (queue tq) (task_entry task)")
  from heappush_heap[OF okh d f] p
  have r: "r = Inr ()" and okh': "heap_ok h'"
    and ms: "mset h' = add_mset (task_entry task) (mset (queue tq))" by simp_all
  have "mset h' = mset (queue tq @ [task_entry task])" using ms by simp
  moreover have "distinct (map entry_key (queue tq @ [task_entry task]))" using d f by simp
  ultimately have d': "distinct (map entry_key h')" by (rule distinct_keys_mset)
  have "set h' = insert (task_entry task) (set (queue tq))"
    using ms by (metis set_mset_mset set_mset_add_mset_insert)
  then have te': "\<forall>x \<in> set h'. x = task_entry (snd (snd x))"
    using te by (auto simp: task_entry_def)
  have "add_task task tq = (Inr (), tq\<lparr>queue := h'\<rparr>)"
    using p r by (simp add: add_task_def task_entry_def)
  then show ?thesis using okh' d' te' ms by (simp add: queue_ok_def)
qed

text \<open>
  On a well-formed non-empty queue, \<open>get_next_task\<close> returns a queued task whose
  \<open>(-priority, created_at)\<close> is smaller than that of every other queued task, that is,
  a task of the highest priority and, among those, the earliest created; the task
  leaves the queue and the queue stays well formed.
\<close>

lemma get_next_task_ordered:
  assumes ok: "queue_ok tq" and ne: "queue tq \<noteq> []"
  shows "\<exists>task tq'. get_next_task tq = (Inr (Some task), tq') \<and>
     task_entry task \<in> set (queue tq) \<and>
     (\<forall>x \<in> set (queue tq). x \<noteq> task_entry task \<longrightarrow>
        (- t_priority task, t_created_at task) < entry_key x) \<and>
     mset (queue tq') = mset (queue tq) - {#task_entry task#} \<and> queue_ok tq'"
proof -
  let ?h = "queue tq"
  have okh: "heap_ok ?h" and d: "distinct (map entry_key ?h)"
    and te: "\<forall>x \<in> set ?h. x = task_entry (snd (snd x))"
    using ok by (simp_all add: queue_ok_def)
  obtain r h' where p: "heappop ?h = (r, h')" by (cases "heappop ?h")
  from heappop_heap[OF okh d ne] p
  have r: "r = Inr (?h ! 0)" and okh': "heap_ok h'" and ms: "mset h' = mset ?h - {#?h ! 0#}"
    by simp_all
  define task where "task = snd (snd (?h ! 0))"
  have mem: "?h ! 0 \<in> set ?h" using ne by simp
  then have e0: "?h ! 0 = task_entry task" using te by (simp add: task_def)
  have key: "entry_key (task_entry task) = (- t_priority task, t_created_at task)"
    by (simp add: entry_key_def task_entry_def)
  have get: "get_next_task tq = (Inr (Some task), tq\<lparr>queue := h'\<rparr>)"
    using ne p r e0 by (simp add: get_next_task_def task_entry_def)
  have least: "\<forall>x \<in> set ?h. x \<noteq> task_entry task \<longrightarrow> (- t_priority task, t_created_at task) < entry_key x"
  proof (intro ballI impI)
    fix x assume x: "x \<in> set ?h" "x \<noteq> task_entry task"
    then obtain i where i: "i < length ?h" "?h ! i = x" by (metis in_set_conv_nth)
    then have "0 < i" using x e0 by (cases i) auto
    from heap_ok_root[OF okh i(1) this] show "(- t_priority task, t_created_at task) < entry_key x"
      using i e0 key by simp
  qed
  have full: "mset (?h ! 0 # h') = mset ?h" using ms mem by simp
  have sub: "set h' \<subseteq> set ?h" using full by (metis set_mset_mset set_subset_Cons)
  have "distinct (map entry_key (?h ! 0 # h'))" by (rule distinct_keys_mset[OF full d])
  then have d': "distinct (map entry_key h')" by simp
  have te': "\<forall>x \<in> set h'. x = task_entry (snd (snd x))" using te sub by blast
  have ok': "queue_ok (tq\<lparr>queue := h'\<rparr>)" using okh' d' te' by (simp add: queue_ok_def)
  have mem': "task_entry task \<in> set ?h" using mem e0 by simp
  have ms': "mset (queue (tq\<lparr>queue := h'\<rparr>)) = mset ?h - {#task_entry task#}"
    using ms e0 by simp
  from get mem' least ms' ok' show ?thesis by blast
qed

lemma queue_ok_init: "queue_ok (TaskQueue_init n)"
  by (simp add: queue_ok_def heap_ok_def TaskQueue_init_def)

text \<open>
  The example of the specification: tasks of priorities 1, 5 and 3, created in this
  order at different times, are dequeued as 5, 3, 1; two tasks of priority 1 created at
  different times are dequeued in the order of their creation, whichever is enqueued
  first.
\<close>

lemma priority_example:
  "fst (get_next_task (add_tasks
      [priority_task ''x'' 1 10, priority_task ''y'' 5 11, priority_task ''z'' 3 12]
      (TaskQueue_init 3))) = Inr (Some (priority_task ''y'' 5 11)) \<and>
   fst (get_next_task (snd (get_next_task (add_tasks
      [priority_task ''x'' 1 10, priority_task ''y'' 5 11, priority_task ''z'' 3 12]
      (TaskQueue_init 3))))) = Inr (Some (priority_task ''z'' 3 12)) \<and>
   fst (get_next_task (snd (get_next_task (snd (get_next_task (add_tasks
      [priority_task ''x'' 1 10, priority_task ''y'' 5 11, priority_task ''z'' 3 12]
      (TaskQueue_init 3))))))) = Inr (Some (priority_task ''x'' 1 10)) \<and>
   fst (get_next_task (add_tasks [priority_task ''u'' 1 21, priority_task ''v'' 1 20]
      (TaskQueue_init 3))) = Inr (Some (priority_task ''v'' 1 20)) \<and>
   fst (get_next_task (add_tasks [priority_task ''v'' 1 20, priority_task ''u'' 1 21]
      (TaskQueue_init 3))) = Inr (Some (priority_task ''v'' 1 20))"
  by code_simp

end
